theory Spec2Isabelle
  imports Main
begin

text \<open>
  A shallow embedding of \<^verbatim>\<open>src/ofx2json.cpp\<close>: the primitive decoders, the tag-soup
  tokenizer, the container stack that rebuilds the hierarchy, and the driver. Strings
  are lists of characters read by index, as the source reads them; every loop is a
  recursive function over the cursor of the source; a \<^verbatim>\<open>return false\<close> is \<open>None\<close> or
  a failure value; the JSON values that the containers share live in an explicit store.
  The definitions come first, with the facts their termination needs, then the
  properties of the decoders, of the builder and of the driver.
\<close>

section \<open>Characters and whitespace\<close>

text \<open>
  The program never calls \<^verbatim>\<open>setlocale\<close>, so \<^verbatim>\<open>isspace\<close>, \<^verbatim>\<open>isdigit\<close> and
  \<^verbatim>\<open>tolower\<close> are those of the C locale: white space is the space and the control
  characters 9 to 13, the digits are 0 to 9, and only A to Z have a lower-case form.
\<close>

definition isspace :: "char \<Rightarrow> bool" where
  "isspace c = (c = CHR '' '' \<or> (9 \<le> (of_char c :: nat) \<and> (of_char c :: nat) \<le> 13))"

definition isdigit :: "char \<Rightarrow> bool" where
  "isdigit c = (48 \<le> (of_char c :: nat) \<and> (of_char c :: nat) \<le> 57)"

text \<open>\<^verbatim>\<open>ch - '0'\<close> for a digit character.\<close>

definition digit_val :: "char \<Rightarrow> nat" where
  "digit_val c = (of_char c :: nat) - 48"

definition tolower :: "char \<Rightarrow> char" where
  "tolower c =
     (case map_of (zip ''ABCDEFGHIJKLMNOPQRSTUVWXYZ'' ''abcdefghijklmnopqrstuvwxyz'') c of
        Some l \<Rightarrow> l
      | None \<Rightarrow> c)"

definition str_lower :: "string \<Rightarrow> string" where
  "str_lower str = map tolower str"

text \<open>
  \<^verbatim>\<open>s.c_str()\<close> as the JSON library reads it: the library takes the length of a
  \<^verbatim>\<open>const char*\<close> with \<^verbatim>\<open>strlen\<close>, so the string it stores ends before the first
  zero byte of \<^verbatim>\<open>s\<close>.
\<close>

definition c_str :: "string \<Rightarrow> string" where
  "c_str s = takeWhile (\<lambda>c. c \<noteq> CHR 0x00) s"

text \<open>
  \<^verbatim>\<open>skip_ws(str, pos)\<close> advances \<^verbatim>\<open>pos\<close> over white space. The model returns the new
  position; the source's boolean result is \<open>pos < skip_ws str pos\<close>.
\<close>

function skip_ws :: "string \<Rightarrow> nat \<Rightarrow> nat" where
  "skip_ws str pos =
     (if pos < length str \<and> isspace (str ! pos) then skip_ws str (Suc pos) else pos)"
  by pat_completeness auto
termination
  by (relation "measure (\<lambda>(str, pos). length str - pos)") auto

declare skip_ws.simps [simp del]

subsection \<open>Facts about white space and digits\<close>

lemma skip_ws_takeWhile:
  "pos \<le> length str \<Longrightarrow>
   skip_ws str pos = pos + length (takeWhile isspace (drop pos str))"
proof (induction str pos rule: skip_ws.induct)
  case (1 str pos)
  show ?case
  proof (cases "pos < length str \<and> isspace (str ! pos)")
    case True
    then have d: "drop pos str = str ! pos # drop (Suc pos) str"
      by (simp add: Cons_nth_drop_Suc)
    from True 1 have "skip_ws str (Suc pos)
        = Suc pos + length (takeWhile isspace (drop (Suc pos) str))"
      by simp
    with True d show ?thesis
      by (subst skip_ws.simps) simp
  next
    case False
    show ?thesis
    proof (cases "pos < length str")
      case True
      with False have "\<not> isspace (str ! pos)" by simp
      moreover from True have "drop pos str = str ! pos # drop (Suc pos) str"
        by (simp add: Cons_nth_drop_Suc)
      ultimately show ?thesis
        by (subst skip_ws.simps) simp
    next
      case False
      with 1 show ?thesis
        by (subst skip_ws.simps) simp
    qed
  qed
qed

lemma skip_ws_ge: "pos \<le> skip_ws str pos"
  by (induction str pos rule: skip_ws.induct) (subst skip_ws.simps, auto)

lemma skip_ws_all_space:
  "pos \<le> length str \<Longrightarrow>
   (skip_ws str pos \<ge> length str) = (\<forall>c \<in> set (drop pos str). isspace c)"
proof -
  assume le: "pos \<le> length str"
  have "(length (takeWhile isspace (drop pos str)) = length (drop pos str))
        = (\<forall>c \<in> set (drop pos str). isspace c)"
    by (metis takeWhile_eq_all_conv length_takeWhile_le takeWhile_eq_take take_all_iff order_refl)
  with le show ?thesis
    by (simp add: skip_ws_takeWhile) (metis le_add_diff_inverse add_le_cancel_left
        length_takeWhile_le length_drop le_antisym order_refl)
qed

lemma skip_ws_nonspace:
  "pos < length str \<Longrightarrow> \<not> isspace (str ! pos) \<Longrightarrow> skip_ws str pos = pos"
  by (subst skip_ws.simps) simp

lemma skip_ws_end: "length str \<le> pos \<Longrightarrow> skip_ws str pos = pos"
  by (subst skip_ws.simps) simp

lemma skip_ws_prefix:
  assumes "\<forall>c \<in> set ws. isspace c" and "\<not> isspace c"
  shows "skip_ws (ws @ c # rest) 0 = length ws"
proof -
  from assms have "takeWhile isspace (ws @ c # rest) = ws"
    by (simp add: takeWhile_append2)
  then show ?thesis by (simp add: skip_ws_takeWhile)
qed

lemma dropWhile_decomp:
  "(dropWhile P xs = c # rest) = (\<exists>ws. xs = ws @ c # rest \<and> (\<forall>x \<in> set ws. P x) \<and> \<not> P c)"
proof
  assume h: "dropWhile P xs = c # rest"
  then have 1: "xs = takeWhile P xs @ c # rest" by (metis takeWhile_dropWhile_id)
  have 2: "\<forall>x \<in> set (takeWhile P xs). P x" by (auto dest: set_takeWhileD)
  from h have 3: "\<not> P c" using hd_dropWhile [of P xs] by simp
  from 1 2 3 show "\<exists>ws. xs = ws @ c # rest \<and> (\<forall>x \<in> set ws. P x) \<and> \<not> P c"
    by blast
next
  assume "\<exists>ws. xs = ws @ c # rest \<and> (\<forall>x \<in> set ws. P x) \<and> \<not> P c"
  then obtain ws where "xs = ws @ c # rest" "\<forall>x \<in> set ws. P x" "\<not> P c" by blast
  then show "dropWhile P xs = c # rest"
    by (simp add: dropWhile_append3)
qed

lemma isdigit_not_dot: "isdigit c \<Longrightarrow> c \<noteq> CHR ''.''"
  by (auto simp: isdigit_def)

lemma isdigit_not_space: "isdigit c \<Longrightarrow> \<not> isspace c"
  by (auto simp: isdigit_def isspace_def)

lemma isdigit_not_sign: "isdigit c \<Longrightarrow> c \<noteq> CHR ''-'' \<and> c \<noteq> CHR ''+''"
  by (auto simp: isdigit_def)

lemma isspace_not_dot_digit: "isspace c \<Longrightarrow> c \<noteq> CHR ''.'' \<and> \<not> isdigit c"
  by (auto simp: isdigit_def isspace_def)

section \<open>Primitive decoders\<close>

subsection \<open>Digit runs\<close>

text \<open>
  \<^verbatim>\<open>parse_digits<IntType>(text, pos, len, val)\<close>. The length is \<open>None\<close> for
  \<^verbatim>\<open>std::string::npos\<close>. The integer type is given by its wrap-around function:
  \<open>wrap_int\<close> for a 32-bit \<^verbatim>\<open>int\<close> in two's complement, \<open>wrap_uint\<close> for
  \<^verbatim>\<open>unsigned int\<close>, so that the test \<^verbatim>\<open>val < pval\<close> sees the wrapped value as the
  compiled program does (the overflow of an \<^verbatim>\<open>int\<close> is undefined in C++; the wrapped
  value is what the processor computes). The result is the count the source returns
  with the value it leaves in \<^verbatim>\<open>val\<close>.
\<close>

definition wrap_int :: "int \<Rightarrow> int" where
  "wrap_int x = (x + 2 ^ 31) mod 2 ^ 32 - 2 ^ 31"

definition wrap_uint :: "int \<Rightarrow> int" where
  "wrap_uint x = x mod 2 ^ 32"

function pd_loop :: "(int \<Rightarrow> int) \<Rightarrow> string \<Rightarrow> nat \<Rightarrow> nat \<Rightarrow> bool \<Rightarrow> nat \<Rightarrow> int \<Rightarrow> nat \<times> int" where
  "pd_loop wrap text pos slen bounded i val =
     (if pos + i < slen then
        (let ch = text ! (pos + i) in
         if \<not> isdigit ch then
           (if bounded \<or> i = 0 then (0, val) else (i, val))
         else
           (let pval = val;
                val' = wrap (wrap (val * 10) + int (digit_val ch))
            in if val' < pval then (0, val')
               else pd_loop wrap text pos slen bounded (Suc i) val'))
      else (i, val))"
  by pat_completeness auto
termination
  by (relation "measure (\<lambda>(wrap, text, pos, slen, bounded, i, val). slen - (pos + i))") auto

declare pd_loop.simps [simp del]

definition parse_digits :: "(int \<Rightarrow> int) \<Rightarrow> string \<Rightarrow> nat \<Rightarrow> nat option \<Rightarrow> nat \<times> int" where
  "parse_digits wrap text pos len =
     (case len of
        Some n \<Rightarrow>
          if pos + n > length text then (0, 0)
          else pd_loop wrap text pos (pos + n) True 0 0
      | None \<Rightarrow> pd_loop wrap text pos (length text) False 0 0)"

subsection \<open>Datetime\<close>

text \<open>The fields of \<^verbatim>\<open>struct tm\<close> that the program writes and \<^verbatim>\<open>strftime\<close> reads.\<close>

record tm =
  tm_year :: int
  tm_mon :: int
  tm_mday :: int
  tm_hour :: int
  tm_min :: int
  tm_sec :: int

text \<open>\<^verbatim>\<open>while (i < len && text[i] != ']') i++;\<close>\<close>

function find_bracket :: "string \<Rightarrow> nat \<Rightarrow> nat" where
  "find_bracket text i =
     (if i < length text \<and> text ! i \<noteq> CHR '']'' then find_bracket text (Suc i) else i)"
  by pat_completeness auto
termination
  by (relation "measure (\<lambda>(text, i). length text - i)") auto

declare find_bracket.simps [simp del]

text \<open>
  The bracketed time zone of \<^verbatim>\<open>parse_datetime\<close>: the block the source enters with
  \<^verbatim>\<open>i < len\<close> after the seconds and the white space behind them. The result is
  \<^verbatim>\<open>tzoff_min\<close>; \<open>None\<close> is \<^verbatim>\<open>return false\<close>. The source's loops
  \<^verbatim>\<open>while (i < len && isspace(text[i])) i++;\<close> are \<open>skip_ws\<close>.
\<close>

definition parse_tz :: "string \<Rightarrow> nat \<Rightarrow> int option" where
  "parse_tz text i0 =
     (let len = length text in
      if text ! i0 \<noteq> CHR ''['' then None
      else let i1 = skip_ws text (Suc i0) in
      if i1 \<ge> len then None
      else let signed = (text ! i1 = CHR ''-'' \<or> text ! i1 = CHR ''+'');
               neg = (text ! i1 = CHR ''-'') in
      if signed \<and> Suc i1 \<ge> len then None
      else let i2 = (if signed then Suc i1 else i1);
               (digs, hours) = parse_digits wrap_int text i2 None in
      if digs = 0 \<or> hours > 12 then None
      else let tzoff_min = wrap_int (hours * 60);
               i3 = i2 + digs in
      if i3 \<ge> len then None
      else
        (case (if text ! i3 = CHR ''.'' then
                 (if Suc i3 \<ge> len then None
                  else let (fdigs, tzoff_frac) = parse_digits wrap_int text (Suc i3) None in
                    if fdigs = 0 \<or> tzoff_frac \<noteq> 0 then None
                    else Some (Suc i3 + fdigs))
               else Some i3) of
           None \<Rightarrow> None
         | Some i4 \<Rightarrow>
             let tzoff_min' = (if neg then wrap_int (- tzoff_min) else tzoff_min);
                 i5 = skip_ws text i4 in
             if i5 \<ge> len then None
             else
               (case (if text ! i5 = CHR '':'' then
                        (let j = find_bracket text (Suc i5) in
                         if j \<ge> len then None else Some j)
                      else Some i5) of
                  None \<Rightarrow> None
                | Some i6 \<Rightarrow>
                    if text ! i6 \<noteq> CHR '']'' then None
                    else if skip_ws text (Suc i6) < len then None
                    else Some tzoff_min')))"

text \<open>
  \<^verbatim>\<open>parse_datetime(text, tm, msecs, tzoff_min)\<close>. The result holds \<^verbatim>\<open>tm\<close>, the
  milliseconds when the source writes them (the caller passes an uninitialised variable
  and never reads it) and \<^verbatim>\<open>tzoff_min\<close>.
\<close>

definition parse_datetime :: "string \<Rightarrow> (tm \<times> int option \<times> int) option" where
  "parse_datetime text =
     (let len = length text in
      if len < 8 then None
      else let (n1, year) = parse_digits wrap_int text 0 (Some 4) in
      if n1 = 0 \<or> year > 9999 then None
      else let (n2, mon) = parse_digits wrap_int text 4 (Some 2) in
      if n2 = 0 \<or> mon = 0 \<or> mon > 12 then None
      else let (n3, mday) = parse_digits wrap_int text 6 (Some 2) in
      if n3 = 0 \<or> mday = 0 \<or> mday > 31 then None
      else if len \<ge> 14 then
        (let (n4, hour) = parse_digits wrap_int text 8 (Some 2) in
         if n4 = 0 \<or> hour > 23 then None
         else let (n5, minute) = parse_digits wrap_int text 10 (Some 2) in
         if n5 = 0 \<or> minute > 59 then None
         else let (n6, sec) = parse_digits wrap_int text 12 (Some 2) in
         if n6 = 0 \<or> sec > 60 then None
         else let t = \<lparr>tm_year = year - 1900, tm_mon = mon - 1, tm_mday = mday,
                         tm_hour = hour, tm_min = minute, tm_sec = sec\<rparr> in
         if len \<ge> 18 then
           (case (if text ! 14 = CHR ''.'' then
                    (let (n7, ms) = parse_digits wrap_uint text 15 (Some 3) in
                     if n7 = 0 then None else Some (18, Some ms))
                  else Some (14, None)) of
              None \<Rightarrow> None
            | Some (i, msecs) \<Rightarrow>
                let i' = skip_ws text i in
                if i' < len then
                  (case parse_tz text i' of
                     None \<Rightarrow> None
                   | Some tzoff_min \<Rightarrow> Some (t, msecs, tzoff_min))
                else Some (t, msecs, 0))
         else if len > 14 then None
         else Some (t, None, 0))
      else if len > 8 then None
      else Some (\<lparr>tm_year = year - 1900, tm_mon = mon - 1, tm_mday = mday,
                  tm_hour = 0, tm_min = 0, tm_sec = 0\<rparr>, None, 0))"

subsection \<open>Rendering a decoded datetime\<close>

text \<open>Decimal digits of a natural number, as \<^verbatim>\<open>%d\<close> prints them.\<close>

definition digit_char :: "nat \<Rightarrow> char" where
  "digit_char d = ''0123456789'' ! d"

fun dec :: "nat \<Rightarrow> string" where
  "dec n = (if n < 10 then [digit_char n] else dec (n div 10) @ [digit_char (n mod 10)])"

declare dec.simps [simp del]

text \<open>\<^verbatim>\<open>%02d\<close> of a value that is not negative.\<close>

definition dec02 :: "nat \<Rightarrow> string" where
  "dec02 n = (if n < 10 then CHR ''0'' # dec n else dec n)"

text \<open>\<^verbatim>\<open>%+03d\<close>: the sign always, then at least two digits.\<close>

definition dec_plus03 :: "int \<Rightarrow> string" where
  "dec_plus03 x = (if x < 0 then CHR ''-'' else CHR ''+'') # dec02 (nat \<bar>x\<bar>)"

text \<open>
  \<^verbatim>\<open>%d\<close> of an \<^verbatim>\<open>int\<close>, for the year of \<^verbatim>\<open>%F\<close> (glibc prints
  \<^verbatim>\<open>tm_year + 1900\<close> with no padding).
\<close>

definition dec_int :: "int \<Rightarrow> string" where
  "dec_int x = (if x < 0 then CHR ''-'' # dec (nat (- x)) else dec (nat x))"

text \<open>The division of C truncates towards zero.\<close>

definition c_div :: "int \<Rightarrow> int \<Rightarrow> int" where
  "c_div a b = sgn a * sgn b * (\<bar>a\<bar> div \<bar>b\<bar>)"

text \<open>\<^verbatim>\<open>strftime(buf, sizeof buf, "%FT%T", &tm)\<close>.\<close>

definition strftime_FT :: "tm \<Rightarrow> string" where
  "strftime_FT t =
     dec_int (tm_year t + 1900) @ ''-'' @ dec02 (nat (tm_mon t + 1)) @ ''-'' @
     dec02 (nat (tm_mday t)) @ ''T'' @ dec02 (nat (tm_hour t)) @ '':'' @
     dec02 (nat (tm_min t)) @ '':'' @ dec02 (nat (tm_sec t))"

text \<open>The string \<^verbatim>\<open>add_datetime\<close> builds in \<^verbatim>\<open>buf\<close> for a decoded value.\<close>

definition render_datetime :: "tm \<Rightarrow> int \<Rightarrow> string" where
  "render_datetime t tzoff_min =
     strftime_FT t @
     (if tzoff_min = 0 then ''Z''
      else let off_min = \<bar>tzoff_min\<bar> mod 60 in
        if off_min \<noteq> 0 then dec_plus03 (c_div tzoff_min 60) @ '':'' @ dec02 (nat off_min)
        else dec_plus03 (c_div tzoff_min 60))"

subsection \<open>Numbers\<close>

text \<open>
  \<^verbatim>\<open>parse_number\<close> accumulates the digits in a \<^verbatim>\<open>double\<close>:
  \<^verbatim>\<open>r = r * 10.0 + (ch - '0')\<close>. The accumulator only ever holds integers that are not
  negative, or \<open>+\<infinity>\<close>, so it is modelled exactly: \<open>Fin n\<close> is the double of value
  \<open>n\<close>, and each operation rounds its exact result to the nearest double, ties to the
  even significand (IEEE 754 binary64, 53 bits, the default rounding mode), and to
  \<open>PInf\<close> from \<open>2 ^ 1024\<close> on.
\<close>

datatype dbl = Fin nat | PInf

text \<open>The number of binary digits of \<open>n\<close>.\<close>

fun nbits :: "nat \<Rightarrow> nat" where
  "nbits n = (if n = 0 then 0 else Suc (nbits (n div 2)))"

declare nbits.simps [simp del]

definition rne53 :: "nat \<Rightarrow> nat" where
  "rne53 n =
     (let e = nbits n - 53 in
      if e = 0 then n
      else let q = n div 2 ^ e; r = n mod 2 ^ e; h = 2 ^ (e - 1) in
        (if r > h \<or> (r = h \<and> odd q) then q + 1 else q) * 2 ^ e)"

definition dbl_round :: "nat \<Rightarrow> dbl" where
  "dbl_round n = (let m = rne53 n in if nbits m > 1024 then PInf else Fin m)"

fun dbl_mul10 :: "dbl \<Rightarrow> dbl" where
  "dbl_mul10 (Fin r) = dbl_round (r * 10)"
| "dbl_mul10 PInf = PInf"

fun dbl_add :: "dbl \<Rightarrow> nat \<Rightarrow> dbl" where
  "dbl_add (Fin r) d = dbl_round (r + d)"
| "dbl_add PInf d = PInf"

fun dbl_less :: "dbl \<Rightarrow> dbl \<Rightarrow> bool" where
  "dbl_less (Fin a) (Fin b) = (a < b)"
| "dbl_less (Fin a) PInf = True"
| "dbl_less PInf b = False"

text \<open>
  The value \<^verbatim>\<open>parse_number\<close> stores is \<^verbatim>\<open>r * f\<close>, where \<^verbatim>\<open>f\<close> is \<^verbatim>\<open>1.0\<close> or
  \<^verbatim>\<open>-1.0\<close> divided by \<^verbatim>\<open>10.0\<close> once for each digit behind the decimal point. The
  model keeps the three parts of that product: the sign of \<^verbatim>\<open>f\<close>, the accumulator
  \<^verbatim>\<open>r\<close>, and the number of divisions of \<^verbatim>\<open>f\<close>.
\<close>

record number =
  num_neg :: bool
  num_acc :: dbl
  num_fdiv :: nat

text \<open>
  The digit loop of \<^verbatim>\<open>parse_number\<close>: \<open>None\<close> is \<^verbatim>\<open>return false\<close>, otherwise the
  position where the loop stops, \<^verbatim>\<open>r\<close> and the divisions of \<^verbatim>\<open>f\<close>.
\<close>

function pn_loop :: "string \<Rightarrow> nat \<Rightarrow> bool \<Rightarrow> dbl \<Rightarrow> nat \<Rightarrow> (nat \<times> dbl \<times> nat) option" where
  "pn_loop text pos isf r k =
     (if pos < length text then
        (let ch = text ! pos in
         if ch = CHR ''.'' then
           (if isf then None else pn_loop text (Suc pos) True r k)
         else if isdigit ch then
           (let k' = (if isf then Suc k else k);
                r' = dbl_add (dbl_mul10 r) (digit_val ch)
            in if dbl_less r' r then None else pn_loop text (Suc pos) isf r' k')
         else Some (pos, r, k))
      else Some (pos, r, k))"
  by pat_completeness auto
termination
  by (relation "measure (\<lambda>(text, pos, isf, r, k). length text - pos)") auto

declare pn_loop.simps [simp del]

text \<open>\<^verbatim>\<open>parse_number\<close> from the digit loop to the end.\<close>

definition pn_body :: "string \<Rightarrow> bool \<Rightarrow> nat \<Rightarrow> number option" where
  "pn_body text neg pos =
     (case pn_loop text pos False (Fin 0) 0 of
        None \<Rightarrow> None
      | Some (pos', r, k) \<Rightarrow>
          if skip_ws text pos' < length text then None
          else Some \<lparr>num_neg = neg, num_acc = r, num_fdiv = k\<rparr>)"

definition parse_number :: "string \<Rightarrow> number option" where
  "parse_number text =
     (let pos = skip_ws text 0 in
      if pos \<ge> length text then None
      else let ch = text ! pos in
        if ch = CHR ''-'' \<or> ch = CHR ''+'' then
          (let pos' = Suc (skip_ws text pos) in
           if pos' \<ge> length text then None else pn_body text (ch = CHR ''-'') pos')
        else pn_body text False pos)"

subsection \<open>Booleans\<close>

text \<open>\<^verbatim>\<open>parse_bool\<close>: \<open>None\<close> is the source's \<^verbatim>\<open>return false\<close>.\<close>

definition parse_bool :: "string \<Rightarrow> bool option" where
  "parse_bool text =
     (let pos = skip_ws text 0 in
      if pos \<ge> length text then None
      else let ch = text ! pos in
        if ch = CHR ''Y'' \<or> ch = CHR ''y'' then
          (if skip_ws text (Suc pos) \<ge> length text then Some True else None)
        else if ch = CHR ''N'' \<or> ch = CHR ''n'' then
          (if skip_ws text (Suc pos) \<ge> length text then Some False else None)
        else None)"

section \<open>The tag-soup tokenizer\<close>

subsection \<open>Raw text, names and attribute values\<close>

text \<open>
  The index loop of \<^verbatim>\<open>read_text\<close> that finds where the trailing white space of
  \<^verbatim>\<open>txt\<close> starts: \<^verbatim>\<open>while (i > 0 && isspace(txt[i - 1])) i--;\<close>
\<close>

fun trim_end :: "string \<Rightarrow> nat \<Rightarrow> nat" where
  "trim_end txt 0 = 0"
| "trim_end txt (Suc i) = (if isspace (txt ! i) then trim_end txt i else Suc i)"

text \<open>
  \<^verbatim>\<open>read_text\<close> after its \<^verbatim>\<open>skip_ws\<close>: \<open>None\<close> is \<^verbatim>\<open>return false\<close>, the end of
  the input before any \<^verbatim>\<open><\<close> or \<^verbatim>\<open>>\<close>.
\<close>

function rt_loop :: "string \<Rightarrow> nat \<Rightarrow> string \<Rightarrow> (nat \<times> string) option" where
  "rt_loop str pos txt =
     (if pos < length str then
        (let ch = str ! pos in
         if ch = CHR ''<'' \<or> ch = CHR ''>'' then
           Some (pos, if txt \<noteq> [] then take (trim_end txt (length txt)) txt else txt)
         else rt_loop str (Suc pos) (txt @ [ch]))
      else None)"
  by pat_completeness auto
termination
  by (relation "measure (\<lambda>(str, pos, txt). length str - pos)") auto

declare rt_loop.simps [simp del]

definition read_text :: "string \<Rightarrow> nat \<Rightarrow> (nat \<times> string) option" where
  "read_text str pos = rt_loop str (skip_ws str pos) []"

text \<open>The characters that end a name or an unquoted attribute value.\<close>

definition name_end :: "char \<Rightarrow> bool" where
  "name_end ch =
     (isspace ch \<or> ch = CHR ''<'' \<or> ch = CHR ''>'' \<or> ch = CHR ''/'' \<or> ch = CHR ''='' \<or>
      ch = CHR 0x22)"

text \<open>
  \<^verbatim>\<open>read_name(str, pos, txt)\<close>: the result is the boolean the source returns, the new
  position and the new \<^verbatim>\<open>txt\<close>.
\<close>

function read_name :: "string \<Rightarrow> nat \<Rightarrow> string \<Rightarrow> bool \<times> nat \<times> string" where
  "read_name str pos txt =
     (if pos < length str then
        (let ch = str ! pos in
         if name_end ch then (txt \<noteq> [], pos, txt)
         else read_name str (Suc pos) (txt @ [ch]))
      else (txt \<noteq> [], pos, txt))"
  by pat_completeness auto
termination
  by (relation "measure (\<lambda>(str, pos, txt). length str - pos)") auto

declare read_name.simps [simp del]

function read_attrval :: "string \<Rightarrow> nat \<Rightarrow> string \<Rightarrow> bool \<Rightarrow> bool \<times> nat \<times> string" where
  "read_attrval str pos txt quoted =
     (if pos < length str then
        (let ch = str ! pos in
         if \<not> quoted \<and> name_end ch then (txt \<noteq> [], pos, txt)
         else if quoted \<and> ch = CHR 0x22 then (txt \<noteq> [], pos, txt)
         else read_attrval str (Suc pos) (txt @ [ch]) quoted)
      else (\<not> quoted \<and> txt \<noteq> [], pos, txt))"
  by pat_completeness auto
termination
  by (relation "measure (\<lambda>(str, pos, txt, quoted). length str - pos)") auto

declare read_attrval.simps [simp del]

subsection \<open>Entity decoding\<close>

definition xml_entities :: "(string \<times> char) list" where
  "xml_entities =
     [(''quot'', CHR 0x22), (''amp'', CHR ''&''), (''apos'', CHR 0x27),
      (''lt'', CHR ''<''), (''gt'', CHR ''>'')]"

text \<open>
  The inner loop of \<^verbatim>\<open>try_xml_decode\<close>, over at most five characters behind the
  \<^verbatim>\<open>&\<close> at \<^verbatim>\<open>pos\<close>: the result is \<^verbatim>\<open>found_end\<close> and \<^verbatim>\<open>entity\<close>.
\<close>

function scan_entity :: "string \<Rightarrow> nat \<Rightarrow> nat \<Rightarrow> string \<Rightarrow> bool \<times> string" where
  "scan_entity txt pos i entity =
     (if i < 5 \<and> pos + 1 + i < length txt then
        (let ch_e = txt ! (pos + 1 + i) in
         if ch_e = CHR '';'' then (True, entity)
         else scan_entity txt pos (Suc i) (entity @ [ch_e]))
      else (False, entity))"
  by pat_completeness auto
termination
  by (relation "measure (\<lambda>(txt, pos, i, entity). 5 - i)") auto

declare scan_entity.simps [simp del]

text \<open>
  One pass of the loop of \<^verbatim>\<open>try_xml_decode\<close> at \<^verbatim>\<open>pos\<close>: the character appended to
  \<^verbatim>\<open>ret\<close> and the distance \<^verbatim>\<open>pos\<close> moves, which is the length of a recognized
  reference or 1.
\<close>

definition xd_step :: "string \<Rightarrow> nat \<Rightarrow> char \<times> nat" where
  "xd_step txt pos =
     (let ch = txt ! pos in
      if ch = CHR ''&'' then
        (let (found_end, entity) = scan_entity txt pos 0 [] in
         if found_end \<and> entity \<noteq> [] then
           (case map_of xml_entities entity of
              Some c \<Rightarrow> (c, length entity + 2)
            | None \<Rightarrow> (ch, 1))
         else (ch, 1))
      else (ch, 1))"

lemma xd_step_advance: "0 < snd (xd_step txt pos)"
  by (simp add: xd_step_def Let_def case_prod_beta split: option.splits)

function xd_loop :: "string \<Rightarrow> nat \<Rightarrow> string \<Rightarrow> string" where
  "xd_loop txt pos ret =
     (if pos < length txt then
        (let (c, n) = xd_step txt pos in xd_loop txt (pos + n) (ret @ [c]))
      else ret)"
  by pat_completeness auto
termination
proof (relation "measure (\<lambda>(txt, pos, ret). length txt - pos)")
  show "wf (measure (\<lambda>(txt, pos, ret). length txt - pos))" by simp
next
  fix tx :: string and pos :: nat and ret :: string and x c n
  assume "pos < length tx" and "x = xd_step tx pos" and "(c, n) = x"
  then have "0 < n" using xd_step_advance [of tx pos] by (metis snd_conv)
  with \<open>pos < length tx\<close>
  show "((tx, pos + n, ret @ [c]), (tx, pos, ret)) \<in> measure (\<lambda>(txt, pos, ret). length txt - pos)"
    by simp
qed

declare xd_loop.simps [simp del]

definition try_xml_decode :: "string \<Rightarrow> string" where
  "try_xml_decode txt = xd_loop txt 0 []"

subsection \<open>Elements\<close>

type_synonym attrs = "(string \<times> string) list"

text \<open>\<^verbatim>\<open>std::map::insert\<close> keeps the value of a key that is already there.\<close>

definition attrs_insert :: "string \<Rightarrow> string \<Rightarrow> attrs \<Rightarrow> attrs" where
  "attrs_insert k v m = (if map_of m k = None then m @ [(k, v)] else m)"

lemma read_name_ge: "read_name str pos tx = (ok, pos', tx') \<Longrightarrow> pos \<le> pos'"
proof (induction str pos tx rule: read_name.induct)
  case (1 str pos tx)
  from "1.prems" show ?case
    by (subst (asm) read_name.simps) (auto simp: Let_def split: if_splits dest!: "1.IH" [OF _ refl])
qed

lemma read_name_advance:
  "read_name str pos [] = (True, pos', txt') \<Longrightarrow> pos < pos'"
  by (subst (asm) read_name.simps) (auto simp: Let_def split: if_splits dest!: read_name_ge)

lemma read_attrval_ge: "read_attrval str pos tx quoted = (ok, pos', tx') \<Longrightarrow> pos \<le> pos'"
proof (induction str pos tx quoted rule: read_attrval.induct)
  case (1 str pos tx quoted)
  from "1.prems" show ?case
    by (subst (asm) read_attrval.simps)
       (auto simp: Let_def split: if_splits dest!: "1.IH" [OF _ refl])
qed

text \<open>
  One attribute of the \<^verbatim>\<open>do ... while\<close> loop of \<^verbatim>\<open>iterate_elements\<close>, from
  \<^verbatim>\<open>read_name\<close> to the \<^verbatim>\<open>insert\<close>: \<open>None\<close> is \<^verbatim>\<open>return false\<close>, otherwise the
  position behind the attribute and the white space after it, the name and the raw
  value. (A quoted value ends at a quote, so the source's test of \<^verbatim>\<open>str[pos]\<close>
  behind it reads inside the buffer.)
\<close>

definition read_attr :: "string \<Rightarrow> nat \<Rightarrow> (nat \<times> string \<times> string) option" where
  "read_attr str pos =
     (case read_name str pos [] of
        (ok, pos1, at_name) \<Rightarrow>
          if \<not> ok then None
          else let pos2 = skip_ws str pos1 in
          if pos2 \<ge> length str then None
          else if str ! pos2 = CHR ''='' then
            (let pos3 = skip_ws str (Suc pos2) in
             if pos3 \<ge> length str then None
             else let quoted = (str ! pos3 = CHR 0x22);
                      pos4 = (if quoted then Suc pos3 else pos3) in
               case read_attrval str pos4 [] quoted of
                 (ok2, pos5, at_val) \<Rightarrow>
                   if \<not> ok2 then None
                   else if quoted then
                     (if pos5 < length str \<and> str ! pos5 = CHR 0x22
                      then Some (skip_ws str (Suc pos5), at_name, at_val) else None)
                   else Some (skip_ws str pos5, at_name, at_val))
          else Some (skip_ws str pos2, at_name, []))"

lemma read_attr_advance: "read_attr str pos = Some (pos', n, v) \<Longrightarrow> pos < pos'"
proof -
  assume a: "read_attr str pos = Some (pos', n, v)"
  obtain ok pos1 at_name where rn: "read_name str pos [] = (ok, pos1, at_name)"
    by (cases "read_name str pos []") auto
  with a have ok: "ok" by (auto simp: read_attr_def split: if_splits)
  with rn have p1: "pos < pos1" by (auto dest: read_name_advance)
  have s: "\<And>p. p \<le> skip_ws str p" by (rule skip_ws_ge)
  show ?thesis
  proof (cases "str ! skip_ws str pos1 = CHR ''=''")
    case False
    with a rn ok have "pos' = skip_ws str (skip_ws str pos1)"
      by (auto simp: read_attr_def Let_def split: if_splits)
    with p1 s [of pos1] s [of "skip_ws str pos1"] show ?thesis by linarith
  next
    case True
    let ?p3 = "skip_ws str (Suc (skip_ws str pos1))"
    let ?q = "str ! ?p3 = CHR 0x22"
    obtain ok2 pos5 at_val where
      ra: "read_attrval str (if ?q then Suc ?p3 else ?p3) [] ?q = (ok2, pos5, at_val)"
      by (cases "read_attrval str (if ?q then Suc ?p3 else ?p3) [] ?q") auto
    then have p5: "?p3 \<le> pos5" by (auto dest!: read_attrval_ge split: if_splits)
    from a rn ok True ra have "pos' = skip_ws str pos5 \<or> pos' = skip_ws str (Suc pos5)"
      by (auto simp: read_attr_def Let_def split: if_splits)
    with p1 p5 s [of pos1] s [of "Suc (skip_ws str pos1)"] s [of pos5] s [of "Suc pos5"]
    show ?thesis by linarith
  qed
qed

text \<open>
  The \<^verbatim>\<open>do ... while (pos < str.size())\<close> loop over the attributes: \<open>None\<close> is
  \<^verbatim>\<open>return false\<close>, otherwise the position where the loop is left, by \<^verbatim>\<open>break\<close> or
  by its condition, and the attributes. On entry \<^verbatim>\<open>pos\<close> may be the size of the
  buffer, where \<^verbatim>\<open>str[pos]\<close> is the terminating zero.
\<close>

function attr_loop :: "string \<Rightarrow> nat \<Rightarrow> attrs \<Rightarrow> (nat \<times> attrs) option" where
  "attr_loop str pos el_attrs =
     (if pos < length str \<and> (str ! pos = CHR ''>'' \<or> str ! pos = CHR ''/'') then
        Some (pos, el_attrs)
      else
        (case read_attr str pos of
           None \<Rightarrow> None
         | Some (pos', at_name, at_val) \<Rightarrow>
             let el_attrs' = attrs_insert at_name (try_xml_decode at_val) el_attrs in
             if pos' < length str then attr_loop str pos' el_attrs'
             else Some (pos', el_attrs')))"
  by pat_completeness auto
termination
  by (relation "measure (\<lambda>(str, pos, el_attrs). length str - pos)")
     (auto dest: read_attr_advance)

declare attr_loop.simps [simp del]

text \<open>
  One pass of the body of the \<^verbatim>\<open>while\<close> loop of \<^verbatim>\<open>iterate_elements\<close>, from the test
  \<^verbatim>\<open>str[pos] != '<'\<close> to the end of \<^verbatim>\<open>read_text\<close>: \<open>None\<close> is \<^verbatim>\<open>return false\<close>,
  otherwise \<^verbatim>\<open>el_name\<close>, \<^verbatim>\<open>el_attrs\<close>, \<^verbatim>\<open>el_text\<close>, \<^verbatim>\<open>simple_tag\<close> and the new
  position. It is entered with \<^verbatim>\<open>pos < str.size()\<close>.
\<close>

definition read_element :: "string \<Rightarrow> nat \<Rightarrow> (string \<times> attrs \<times> string \<times> bool \<times> nat) option" where
  "read_element str pos0 =
     (if str ! pos0 \<noteq> CHR ''<'' then None
      else let pos1 = skip_ws str (Suc pos0) in
      if pos1 \<ge> length str then None
      else let closing = (str ! pos1 = CHR ''/'');
               pos2 = (if closing then skip_ws str (Suc pos1) else pos1) in
      if closing \<and> pos2 \<ge> length str then None
      else
        (case read_name str pos2 (if closing then [CHR ''/''] else []) of
           (ok, pos3, el_name) \<Rightarrow>
             if \<not> ok then None
             else if hd el_name \<noteq> CHR ''/'' then
               (let pos4 = skip_ws str pos3 in
                case (if pos3 < pos4 then attr_loop str pos4 [] else Some (pos4, [])) of
                  None \<Rightarrow> None
                | Some (pos5, el_attrs) \<Rightarrow>
                    if pos5 \<ge> length str then None
                    else let simple_tag = (length str > 1 \<and> str ! pos5 = CHR ''/'');
                             pos6 = skip_ws str (if simple_tag then Suc pos5 else pos5) in
                    if pos6 \<ge> length str \<or> str ! pos6 \<noteq> CHR ''>'' then None
                    else if simple_tag then Some (el_name, el_attrs, [], True, Suc pos6)
                    else
                      (case read_text str (Suc pos6) of
                         None \<Rightarrow> None
                       | Some (pos7, el_text) \<Rightarrow>
                           Some (el_name, el_attrs, el_text, False, pos7)))
             else
               (let pos4 = skip_ws str pos3 in
                if pos4 \<ge> length str \<or> str ! pos4 \<noteq> CHR ''>'' then None
                else Some (el_name, [], [], False, Suc pos4))))"

lemma rt_loop_ge: "rt_loop str pos tx = Some (pos', tx') \<Longrightarrow> pos \<le> pos'"
proof (induction str pos tx rule: rt_loop.induct)
  case (1 str pos tx)
  from "1.prems" show ?case
    by (subst (asm) rt_loop.simps) (auto simp: Let_def split: if_splits dest!: "1.IH" [OF _ refl])
qed

lemma attr_loop_ge: "attr_loop str pos a = Some (pos', a') \<Longrightarrow> pos \<le> pos'"
proof (induction str pos a rule: attr_loop.induct)
  case (1 str pos el_attrs)
  show ?case
  proof (cases "pos < length str \<and> (str ! pos = CHR ''>'' \<or> str ! pos = CHR ''/'')")
    case True
    with "1.prems" show ?thesis by (subst (asm) attr_loop.simps) auto
  next
    case False
    with "1.prems" obtain p n v where ra: "read_attr str pos = Some (p, n, v)"
      by (subst (asm) attr_loop.simps) (auto split: option.splits)
    then have lt: "pos < p" by (rule read_attr_advance)
    show ?thesis
    proof (cases "p < length str")
      case True
      with "1.prems" False ra
      have "attr_loop str p (attrs_insert n (try_xml_decode v) el_attrs) = Some (pos', a')"
        by (subst (asm) attr_loop.simps) (simp add: Let_def)
      with "1.IH" [OF False ra refl refl refl True] lt show ?thesis by simp
    next
      case nlt: False
      with "1.prems" False ra have "pos' = p"
        by (subst (asm) attr_loop.simps) (simp add: Let_def)
      with lt show ?thesis by simp
    qed
  qed
qed

lemma read_element_advance:
  assumes "read_element str pos = Some (el_name, el_attrs, el_text, simple_tag, pos')"
  shows "pos < pos'"
proof -
  have s: "\<And>p. p \<le> skip_ws str p" by (rule skip_ws_ge)
  let ?p1 = "skip_ws str (Suc pos)"
  let ?cl = "str ! ?p1 = CHR ''/''"
  let ?p2 = "if ?cl then skip_ws str (Suc ?p1) else ?p1"
  obtain ok pos3 nm where rn: "read_name str ?p2 (if ?cl then [CHR ''/''] else []) = (ok, pos3, nm)"
    by (cases "read_name str ?p2 (if ?cl then [CHR ''/''] else [])") auto
  then have "?p2 \<le> pos3" by (rule read_name_ge)
  moreover have "pos < ?p2" using s [of "Suc pos"] s [of "Suc ?p1"] by (simp split: if_splits)
  ultimately have p3: "pos < pos3" by linarith
  from assms rn have ok: ok by (auto simp: read_element_def Let_def split: if_splits)
  show ?thesis
  proof (cases "hd nm \<noteq> CHR ''/''")
    case False
    with assms rn ok have "pos' = Suc (skip_ws str pos3)"
      by (auto simp: read_element_def Let_def split: if_splits)
    with p3 s [of pos3] show ?thesis by linarith
  next
    case True
    let ?p4 = "skip_ws str pos3"
    obtain pos5 at where al:
      "(if pos3 < ?p4 then attr_loop str ?p4 [] else Some (?p4, [])) = Some (pos5, at)"
      using assms rn ok True
      by (auto simp: read_element_def Let_def split: if_splits option.splits)
    then have p5: "?p4 \<le> pos5" by (auto split: if_splits dest: attr_loop_ge)
    let ?st = "length str > 1 \<and> str ! pos5 = CHR ''/''"
    let ?p6 = "skip_ws str (if ?st then Suc pos5 else pos5)"
    have p6: "pos5 \<le> ?p6" using s [of pos5] s [of "Suc pos5"] by (simp split: if_splits)
    from assms rn ok True al have
      "pos' = Suc ?p6 \<or> (\<exists>t. read_text str (Suc ?p6) = Some (pos', t))"
      by (auto simp: read_element_def Let_def split: if_splits option.splits)
    then have "?p6 < pos'"
      using s [of "Suc ?p6"] by (auto simp: read_text_def dest!: rt_loop_ge)
    with p3 p5 p6 s [of pos3] show ?thesis by linarith
  qed
qed

text \<open>
  The ways the run can end before the end of \<^verbatim>\<open>process_ofx\<close>: the tokenizer's
  \<^verbatim>\<open>return false\<close>, the two \<^verbatim>\<open>return false\<close> of the element handler, the
  \<^verbatim>\<open>abort()\<close> of \<^verbatim>\<open>add_number\<close> and \<^verbatim>\<open>add_bool\<close>, and a failed \<^verbatim>\<open>assert\<close> (of the
  program or of the JSON library).
\<close>

datatype failure =
  StructuralParseError | CloseMismatchError | UnexpectedTag | Aborted | AssertionFailed

text \<open>
  \<^verbatim>\<open>iterate_elements(str, pos, handle_element)\<close>. The handler works on a state
  \<open>'st\<close> that it returns updated, with a failure in front when it returns
  \<^verbatim>\<open>false\<close> (or ends the process). \<open>Inr\<close> is \<^verbatim>\<open>return true\<close>, \<open>Inl\<close> is
  \<^verbatim>\<open>return false\<close> with the state the handler left.
\<close>

function iterate_elements ::
  "string \<Rightarrow> nat \<Rightarrow> ('st \<Rightarrow> string \<Rightarrow> attrs \<Rightarrow> string \<Rightarrow> (failure \<times> 'st) + 'st) \<Rightarrow> 'st
   \<Rightarrow> (failure \<times> 'st) + ('st \<times> nat)" where
  "iterate_elements str pos handle_element st =
     (if pos < length str then
        (let pos1 = skip_ws str pos in
         if pos1 \<ge> length str then Inr (st, pos1)
         else
           (case read_element str pos1 of
              None \<Rightarrow> Inl (StructuralParseError, st)
            | Some (el_name, el_attrs, el_text, simple_tag, pos2) \<Rightarrow>
                if el_name = ''/OFX'' then Inr (st, pos2)
                else
                  (case handle_element st el_name el_attrs (try_xml_decode el_text) of
                     Inl e \<Rightarrow> Inl e
                   | Inr st1 \<Rightarrow>
                       if simple_tag then
                         (case handle_element st1 (CHR ''/'' # el_name) el_attrs [] of
                            Inl e \<Rightarrow> Inl e
                          | Inr st2 \<Rightarrow> iterate_elements str pos2 handle_element st2)
                       else iterate_elements str pos2 handle_element st1)))
      else Inr (st, pos))"
  by pat_completeness auto
termination
proof (relation "measure (\<lambda>(str, pos, handle_element, st). length str - pos)")
  show "wf (measure (\<lambda>(str, pos, handle_element, st). length str - pos))" by simp
next
  fix str :: string and pos :: nat and pos1 x2 el_name y el_attrs ya el_text yb simple_tag pos2
  assume "pos < length str" and p1: "pos1 = skip_ws str pos" and "\<not> length str \<le> pos1"
    and "read_element str pos1 = Some x2" and "(el_name, y) = x2" and "(el_attrs, ya) = y"
    and "(el_text, yb) = ya" and "(simple_tag, pos2) = yb"
  then have "read_element str pos1 = Some (el_name, el_attrs, el_text, simple_tag, pos2)"
    by simp
  then have "pos1 < pos2" by (rule read_element_advance)
  with p1 skip_ws_ge [of pos str] \<open>pos < length str\<close>
  have lt: "length str - pos2 < length str - pos" by linarith
  {
    fix handle_element :: "'a \<Rightarrow> string \<Rightarrow> attrs \<Rightarrow> string \<Rightarrow> (failure \<times> 'a) + 'a" and st st2 :: 'a
    from lt show "((str, pos2, handle_element, st2), (str, pos, handle_element, st))
        \<in> measure (\<lambda>(str, pos, handle_element, st). length str - pos)" by simp
  }
  note g = this
  {
    fix handle_element :: "'a \<Rightarrow> string \<Rightarrow> attrs \<Rightarrow> string \<Rightarrow> (failure \<times> 'a) + 'a" and st st1 :: 'a
    from lt show "((str, pos2, handle_element, st1), (str, pos, handle_element, st))
        \<in> measure (\<lambda>(str, pos, handle_element, st). length str - pos)" by simp
  }
qed

declare iterate_elements.simps [simp del]

section \<open>The schema and the container stack\<close>

subsection \<open>JSON values and the store\<close>

text \<open>
  The values of the JSON library. A number is the double \<^verbatim>\<open>parse_number\<close> decoded.
  The members of an object are kept in insertion order; \<^verbatim>\<open>AddMember\<close> appends and
  does not look for the key.
\<close>

datatype json =
  JNull
| JString string
| JNumber number
| JBool bool
| JObject "(string \<times> json) list"
| JArray "json list"

text \<open>
  \<^verbatim>\<open>struct ofx_cont\<close>, a node of the schema. The two maps are association lists read
  with \<open>map_of\<close>, which is \<^verbatim>\<open>find\<close>.
\<close>

datatype serialize_as = nothing | object | object_in_array | object_with_name_in_array | array

datatype tag_fmt = string | number | boolean | datetime

datatype ofx_cont =
  Ofx_cont (serialize: serialize_as) (sub: "(string \<times> ofx_cont) list")
    (tags: "(string \<times> tag_fmt) list")

text \<open>
  \<^verbatim>\<open>struct ofx_container\<close>, a frame of the stack; the fields \<^verbatim>\<open>name_\<close>,
  \<^verbatim>\<open>cont_\<close>, \<^verbatim>\<open>val_\<close> and \<^verbatim>\<open>tags_\<close> are \<open>c_name\<close>, \<open>c_cont\<close>, \<open>c_val\<close> and
  \<open>c_tags\<close> (a name cannot end with an underscore here). \<^verbatim>\<open>val_\<close> is a shared
  pointer: the model keeps the values in a store, \<open>heap\<close>, and \<open>c_val\<close> is an
  address in it, so that a container that serializes as \<^verbatim>\<open>nothing\<close> writes into the
  value of the frame below it, or into the document.
\<close>

record ofx_container =
  c_name :: string
  c_cont :: ofx_cont
  c_val :: nat
  c_tags :: "(string \<times> string) list"

text \<open>
  \<^verbatim>\<open>struct process_ctx\<close> (\<^verbatim>\<open>doc_\<close> and \<^verbatim>\<open>ostack_\<close> are \<open>doc\<close> and \<open>ostack\<close>),
  with the store. The front of \<^verbatim>\<open>ostack_\<close> is the head of the list.
\<close>

record process_ctx =
  doc :: nat
  ostack :: "ofx_container list"
  heap :: "json list"

definition push_container :: "ofx_container \<Rightarrow> process_ctx \<Rightarrow> process_ctx" where
  "push_container container pctx = pctx\<lparr>ostack := container # ostack pctx\<rparr>"

definition pop_container :: "process_ctx \<Rightarrow> process_ctx" where
  "pop_container pctx = pctx\<lparr>ostack := tl (ostack pctx)\<rparr>"

text \<open>\<^verbatim>\<open>std::make_shared<rapidjson::Value>(...)\<close>: a new cell of the store.\<close>

definition make_shared :: "json \<Rightarrow> process_ctx \<Rightarrow> nat \<times> process_ctx" where
  "make_shared v pctx = (length (heap pctx), pctx\<lparr>heap := heap pctx @ [v]\<rparr>)"

text \<open>
  \<^verbatim>\<open>AddMember\<close> and \<^verbatim>\<open>PushBack\<close> on the value at an address. The library asserts
  that the value is an object, or an array.
\<close>

definition AddMember :: "nat \<Rightarrow> string \<Rightarrow> json \<Rightarrow> process_ctx \<Rightarrow> (failure \<times> process_ctx) + process_ctx" where
  "AddMember a k v pctx =
     (case heap pctx ! a of
        JObject ms \<Rightarrow> Inr (pctx\<lparr>heap := (heap pctx)[a := JObject (ms @ [(k, v)])]\<rparr>)
      | _ \<Rightarrow> Inl (AssertionFailed, pctx))"

definition PushBack :: "nat \<Rightarrow> json \<Rightarrow> process_ctx \<Rightarrow> (failure \<times> process_ctx) + process_ctx" where
  "PushBack a v pctx =
     (case heap pctx ! a of
        JArray vs \<Rightarrow> Inr (pctx\<lparr>heap := (heap pctx)[a := JArray (vs @ [v])]\<rparr>)
      | _ \<Rightarrow> Inl (AssertionFailed, pctx))"

text \<open>
  Both take their argument by reference and move it: the value at the address it came
  from is null afterwards.
\<close>

definition move_out :: "nat \<Rightarrow> process_ctx \<Rightarrow> process_ctx" where
  "move_out a pctx = pctx\<lparr>heap := (heap pctx)[a := JNull]\<rparr>"

subsection \<open>Containers\<close>

text \<open>The constructor of \<^verbatim>\<open>ofx_container\<close>.\<close>

definition new_container :: "string \<Rightarrow> ofx_cont \<Rightarrow> process_ctx \<Rightarrow> ofx_container \<times> process_ctx" where
  "new_container name cont pctx =
     (let (v, pctx') =
        (case serialize cont of
           object \<Rightarrow> make_shared (JObject []) pctx
         | object_in_array \<Rightarrow> make_shared (JObject []) pctx
         | object_with_name_in_array \<Rightarrow> make_shared (JObject []) pctx
         | array \<Rightarrow> make_shared (JArray []) pctx
         | nothing \<Rightarrow>
             (if ostack pctx \<noteq> [] then c_val (hd (ostack pctx)) else doc pctx, pctx))
      in (\<lparr>c_name = name, c_cont = cont, c_val = v, c_tags = []\<rparr>, pctx'))"

text \<open>
  \<^verbatim>\<open>ofx_container::done()\<close>, called on the front of the stack: it folds the value of
  the container into the value of the frame below, when there is one.
\<close>

definition done_container :: "process_ctx \<Rightarrow> (failure \<times> process_ctx) + process_ctx" where
  "done_container pctx =
     (case ostack pctx of
        [] \<Rightarrow> Inl (AssertionFailed, pctx)
      | this # rest \<Rightarrow>
          (case rest of
             [] \<Rightarrow> Inr pctx
           | pcontainer # _ \<Rightarrow>
               (case serialize (c_cont this) of
                  object \<Rightarrow>
                    map_sum id (move_out (c_val this))
                      (AddMember (c_val pcontainer) (c_str (str_lower (c_name this)))
                         (heap pctx ! c_val this) pctx)
                | array \<Rightarrow>
                    map_sum id (move_out (c_val this))
                      (AddMember (c_val pcontainer) (c_str (str_lower (c_name this)))
                         (heap pctx ! c_val this) pctx)
                | object_in_array \<Rightarrow>
                    map_sum id (move_out (c_val this))
                      (PushBack (c_val pcontainer) (heap pctx ! c_val this) pctx)
                | object_with_name_in_array \<Rightarrow>
                    PushBack (c_val pcontainer)
                      (JObject [(c_str (str_lower (c_name this)), heap pctx ! c_val this)])
                      (move_out (c_val this) pctx)
                | nothing \<Rightarrow> Inr pctx)))"

text \<open>
  The four \<^verbatim>\<open>add_...\<close> members, on the container at the front of the stack. The
  member name, and the text \<^verbatim>\<open>add_string\<close> stores, reach the JSON library as
  \<^verbatim>\<open>c_str()\<close>. \<^verbatim>\<open>add_number\<close> and \<^verbatim>\<open>add_bool\<close> call \<^verbatim>\<open>abort()\<close> when the text
  does not decode.
\<close>

definition add_string :: "string \<Rightarrow> string \<Rightarrow> process_ctx \<Rightarrow> (failure \<times> process_ctx) + process_ctx" where
  "add_string element text pctx =
     AddMember (c_val (hd (ostack pctx))) (c_str (str_lower element))
       (JString (c_str text)) pctx"

definition add_datetime :: "string \<Rightarrow> string \<Rightarrow> process_ctx \<Rightarrow> (failure \<times> process_ctx) + process_ctx" where
  "add_datetime element text pctx =
     (case parse_datetime text of
        Some (t, msecs, tzoff_min) \<Rightarrow> add_string element (render_datetime t tzoff_min) pctx
      | None \<Rightarrow> add_string element text pctx)"

definition add_number :: "string \<Rightarrow> string \<Rightarrow> process_ctx \<Rightarrow> (failure \<times> process_ctx) + process_ctx" where
  "add_number element text pctx =
     (case parse_number text of
        Some v \<Rightarrow> AddMember (c_val (hd (ostack pctx))) (c_str (str_lower element))
                     (JNumber v) pctx
      | None \<Rightarrow> Inl (Aborted, pctx))"

definition add_bool :: "string \<Rightarrow> string \<Rightarrow> process_ctx \<Rightarrow> (failure \<times> process_ctx) + process_ctx" where
  "add_bool element text pctx =
     (case parse_bool text of
        Some v \<Rightarrow> AddMember (c_val (hd (ostack pctx))) (c_str (str_lower element))
                     (JBool v) pctx
      | None \<Rightarrow> Inl (Aborted, pctx))"

text \<open>\<^verbatim>\<open>tags_.push_back(std::make_pair(element, text))\<close> on the front container.\<close>

definition push_tag :: "string \<Rightarrow> string \<Rightarrow> process_ctx \<Rightarrow> process_ctx" where
  "push_tag element text pctx =
     (case ostack pctx of
        [] \<Rightarrow> pctx
      | this # rest \<Rightarrow>
          pctx\<lparr>ostack := this\<lparr>c_tags := c_tags this @ [(element, text)]\<rparr> # rest\<rparr>)"

text \<open>
  \<^verbatim>\<open>ofx_container::handle_tag\<close>, called on the front of the stack (the caller has
  asserted that the stack is not empty). It always returns \<^verbatim>\<open>true\<close>: \<open>Inl\<close> is the
  end of the process.
\<close>

definition handle_tag :: "string \<Rightarrow> attrs \<Rightarrow> string \<Rightarrow> process_ctx \<Rightarrow> (failure \<times> process_ctx) + process_ctx" where
  "handle_tag element attrs text pctx =
     (let this = hd (ostack pctx) in
      case map_of (sub (c_cont this)) element of
        Some c \<Rightarrow>
          (let (container, pctx') = new_container element c pctx
           in Inr (push_container container pctx'))
      | None \<Rightarrow>
          (case (case map_of (tags (c_cont this)) element of
                   Some string \<Rightarrow> add_string element text pctx
                 | Some number \<Rightarrow> add_number element text pctx
                 | Some boolean \<Rightarrow> add_bool element text pctx
                 | Some datetime \<Rightarrow> add_datetime element text pctx
                 | None \<Rightarrow> Inr pctx) of
             Inl e \<Rightarrow> Inl e
           | Inr pctx' \<Rightarrow> Inr (push_tag element text pctx')))"

text \<open>
  The loop of \<^verbatim>\<open>handle_close\<close>:
  \<^verbatim>\<open>while (!tags_.empty() && !found) { if (tags_.back().first == close_tag) found = true; tags_.pop_back(); }\<close>
\<close>

function close_scan :: "(string \<times> string) list \<Rightarrow> string \<Rightarrow> bool \<Rightarrow> bool \<times> (string \<times> string) list" where
  "close_scan tgs close_tag found =
     (if tgs \<noteq> [] \<and> \<not> found then
        close_scan (butlast tgs) close_tag (if fst (last tgs) = close_tag then True else found)
      else (found, tgs))"
  by pat_completeness auto
termination
  by (relation "measure (\<lambda>(tgs, close_tag, found). length tgs)") auto

declare close_scan.simps [simp del]

text \<open>
  \<^verbatim>\<open>ofx_container::handle_close(close_tag, container_done)\<close>: the result is the
  boolean returned, \<^verbatim>\<open>container_done\<close> (which the caller sets to \<^verbatim>\<open>false\<close> before
  the call) and the container with what is left of its pending tags.
\<close>

definition handle_close :: "string \<Rightarrow> ofx_container \<Rightarrow> bool \<times> bool \<times> ofx_container" where
  "handle_close close_tag this =
     (let (found, tgs) = close_scan (c_tags this) close_tag False;
          this' = this\<lparr>c_tags := tgs\<rparr>
      in if tgs = [] \<and> close_tag = c_name this then (True, True, this')
         else (found, False, this'))"

section \<open>The document driver\<close>

text \<open>
  The handler that \<^verbatim>\<open>process_ofx\<close> gives to \<^verbatim>\<open>iterate_elements\<close>. An element
  whose name does not start with \<^verbatim>\<open>/\<close> goes to \<^verbatim>\<open>handle_tag\<close>, behind the
  assertion that the stack is not empty; the others go to \<^verbatim>\<open>handle_close\<close> with the
  name behind the \<^verbatim>\<open>/\<close>.
\<close>

definition handle_element :: "process_ctx \<Rightarrow> string \<Rightarrow> attrs \<Rightarrow> string \<Rightarrow> (failure \<times> process_ctx) + process_ctx" where
  "handle_element pctx element attrs text =
     (if (case element of [] \<Rightarrow> True | c # _ \<Rightarrow> c \<noteq> CHR ''/'') then
        (if ostack pctx = [] then Inl (AssertionFailed, pctx)
         else handle_tag element attrs text pctx)
      else
        (case ostack pctx of
           os_top # rest \<Rightarrow>
             (let (ok, container_done, os_top') = handle_close (tl element) os_top;
                  pctx' = pctx\<lparr>ostack := os_top' # rest\<rparr>
              in if \<not> ok then Inl (CloseMismatchError, pctx')
                 else if container_done then
                   map_sum id pop_container (done_container pctx')
                 else Inr pctx')
         | [] \<Rightarrow> Inl (UnexpectedTag, pctx)))"

text \<open>
  The part of \<^verbatim>\<open>process_ofx\<close> behind the loop: the boolean returned, and the context.
\<close>

definition finish_ofx :: "process_ctx \<Rightarrow> bool \<times> process_ctx" where
  "finish_ofx pctx =
     (if length (ostack pctx) = 1 then
        (let os_top = hd (ostack pctx);
             (ok, container_done, os_top') = handle_close (c_name os_top) os_top;
             pctx' = pctx\<lparr>ostack := []\<rparr>
         in if \<not> container_done then (False, pctx') else (True, pctx'))
      else if ostack pctx \<noteq> [] then (False, pctx)
      else (True, pctx))"

text \<open>
  The context \<^verbatim>\<open>process_ofx\<close> starts from: the document, an empty object, at address
  0 of the store, and the root container \<^verbatim>\<open>OFX\<close> on the stack. The root of the schema
  (\<^verbatim>\<open>ofx_main\<close> in the source, a static table) is a parameter.
\<close>

definition initial_ctx :: "ofx_cont \<Rightarrow> process_ctx" where
  "initial_ctx root =
     (let pctx = \<lparr>doc = 0, ostack = [], heap = [JObject []]\<rparr>;
          (container, pctx') = new_container ''OFX'' root pctx
      in push_container container pctx')"

text \<open>
  \<^verbatim>\<open>process_ofx(doc, in, pos)\<close>: \<open>Inr\<close> holds the boolean the source returns and the
  context at that point, whose store holds the document; \<open>Inl\<close> is the end of the
  process by \<^verbatim>\<open>abort()\<close> or a failed assertion. When \<^verbatim>\<open>iterate_elements\<close> returns
  \<^verbatim>\<open>false\<close>, the source logs \<^verbatim>\<open>Processing failed.\<close> and returns \<^verbatim>\<open>true\<close>.
\<close>

definition process_ofx :: "ofx_cont \<Rightarrow> string \<Rightarrow> nat \<Rightarrow> failure + (bool \<times> process_ctx)" where
  "process_ofx root inp pos =
     (case iterate_elements inp pos handle_element (initial_ctx root) of
        Inl (e, pctx) \<Rightarrow>
          if e = Aborted \<or> e = AssertionFailed then Inl e
          else Inr (True, pctx)
      | Inr (pctx, pos') \<Rightarrow> Inr (finish_ofx pctx))"

text \<open>\<^verbatim>\<open>in.find("<OFX>")\<close>: the first position where the pattern starts.\<close>

fun str_find :: "string \<Rightarrow> string \<Rightarrow> nat option" where
  "str_find pat [] = (if pat = [] then Some 0 else None)"
| "str_find pat (c # cs) =
     (if take (length pat) (c # cs) = pat then Some 0
      else map_option Suc (str_find pat cs))"

text \<open>
  What \<^verbatim>\<open>main\<close> does with its input once it is read: the JSON document it writes, no
  output at all (\<^verbatim>\<open>process_ofx\<close> returned \<^verbatim>\<open>false\<close>; the exit status is still 0), the
  exception \<^verbatim>\<open>Not an OFX file\<close> (exit status 1), or the end of the process.
\<close>

datatype main_result = Emitted json | NoOutput | NotAnOfxFile | Killed failure

definition main :: "ofx_cont \<Rightarrow> string \<Rightarrow> main_result" where
  "main root inp =
     (case str_find ''<OFX>'' inp of
        None \<Rightarrow> NotAnOfxFile
      | Some pos \<Rightarrow>
          (case process_ofx root inp (pos + 5) of
             Inl e \<Rightarrow> Killed e
           | Inr (ok, pctx) \<Rightarrow> if ok then Emitted (heap pctx ! doc pctx) else NoOutput))"

section \<open>Schema nodes and auxiliary notions\<close>

text \<open>Three nodes of the schema table of the source.\<close>

definition ofx_status :: ofx_cont where
  "ofx_status =
     Ofx_cont object [] [(''CODE'', string), (''SEVERITY'', string), (''MESSAGE'', string)]"

definition ofx_signon_sonrs_fi :: ofx_cont where
  "ofx_signon_sonrs_fi = Ofx_cont object [] [(''ORG'', string), (''FID'', string)]"

definition ofx_signon_sonrs :: ofx_cont where
  "ofx_signon_sonrs =
     Ofx_cont object
       [(''STATUS'', ofx_status), (''FI'', ofx_signon_sonrs_fi)]
       [(''DTSERVER'', datetime), (''DTPROFUP'', datetime), (''LANGUAGE'', string),
        (''SESSCOOKIE'', string)]"

text \<open>
  The schema of the example in the spec: the root, its child container \<^verbatim>\<open>A\<close>, the
  child container \<^verbatim>\<open>B\<close> of \<^verbatim>\<open>A\<close>, and the string leaf \<^verbatim>\<open>X\<close> of \<^verbatim>\<open>B\<close>. The root
  serializes as \<^verbatim>\<open>nothing\<close>, as \<^verbatim>\<open>ofx_main\<close> does, the two containers as objects.
\<close>

definition example_schema :: ofx_cont where
  "example_schema =
     Ofx_cont nothing
       [(''A'', Ofx_cont object [(''B'', Ofx_cont object [] [(''X'', string)])] [])] []"

text \<open>
  The context of the example while \<^verbatim>\<open>B\<close> is open, after the leaf \<^verbatim>\<open>X\<close> with the
  text \<^verbatim>\<open>hi\<close> was added to it, as a function of the pending tags of \<^verbatim>\<open>B\<close>. The
  frames of \<^verbatim>\<open>B\<close>, \<^verbatim>\<open>A\<close> and the root are on the stack, front first; the cells 1
  and 2 of the store hold the values of \<^verbatim>\<open>A\<close> and \<^verbatim>\<open>B\<close>.
\<close>

definition example_ctx :: "(string \<times> string) list \<Rightarrow> process_ctx" where
  "example_ctx tgs =
     \<lparr>doc = 0,
      ostack =
        [\<lparr>c_name = ''B'', c_cont = Ofx_cont object [] [(''X'', string)], c_val = 2,
            c_tags = tgs\<rparr>,
         \<lparr>c_name = ''A'',
            c_cont = Ofx_cont object [(''B'', Ofx_cont object [] [(''X'', string)])] [],
            c_val = 1, c_tags = []\<rparr>,
         \<lparr>c_name = ''OFX'', c_cont = example_schema, c_val = 0, c_tags = []\<rparr>],
      heap = [JObject [], JObject [], JObject [(''x'', JString ''hi'')]]\<rparr>"

text \<open>The number a run of digits denotes.\<close>

definition digits_value :: "string \<Rightarrow> int" where
  "digits_value ds = foldl (\<lambda>v c. v * 10 + int (digit_val c)) 0 ds"

text \<open>
  What is known of the value \<^verbatim>\<open>parse_digits\<close> holds after some digits that denote
  \<open>n\<close>, in a 32-bit \<^verbatim>\<open>int\<close>: it is \<open>n\<close>, or both are more than 12.
\<close>

definition tz_inv :: "int \<Rightarrow> int \<Rightarrow> bool" where
  "tz_inv val n = (0 \<le> val \<and> val < 2 ^ 31 \<and> (val = n \<or> (12 < val \<and> 12 < n)))"




text \<open>
  The loop of \<^verbatim>\<open>iterate_elements\<close> once more, with a bound on the number of passes
  through its body: \<open>None\<close> when the bound is reached before the loop ends.
\<close>

fun iterate_bounded ::
  "nat \<Rightarrow> string \<Rightarrow> nat \<Rightarrow> ('st \<Rightarrow> string \<Rightarrow> attrs \<Rightarrow> string \<Rightarrow> (failure \<times> 'st) + 'st) \<Rightarrow> 'st
   \<Rightarrow> ((failure \<times> 'st) + ('st \<times> nat)) option" where
  "iterate_bounded 0 str pos handler st = None"
| "iterate_bounded (Suc n) str pos handler st =
     (if pos < length str then
        (let pos1 = skip_ws str pos in
         if pos1 \<ge> length str then Some (Inr (st, pos1))
         else
           (case read_element str pos1 of
              None \<Rightarrow> Some (Inl (StructuralParseError, st))
            | Some (el_name, el_attrs, el_text, simple_tag, pos2) \<Rightarrow>
                if el_name = ''/OFX'' then Some (Inr (st, pos2))
                else
                  (case handler st el_name el_attrs (try_xml_decode el_text) of
                     Inl e \<Rightarrow> Some (Inl e)
                   | Inr st1 \<Rightarrow>
                       if simple_tag then
                         (case handler st1 (CHR ''/'' # el_name) el_attrs [] of
                            Inl e \<Rightarrow> Some (Inl e)
                          | Inr st2 \<Rightarrow> iterate_bounded n str pos2 handler st2)
                       else iterate_bounded n str pos2 handler st1)))
      else Some (Inr (st, pos)))"

section \<open>The boolean decoder\<close>

lemma parse_bool_dropWhile:
  "parse_bool text =
     (case dropWhile isspace text of
        [] \<Rightarrow> None
      | c # rest \<Rightarrow>
          if c = CHR ''Y'' \<or> c = CHR ''y'' then
            (if \<forall>x \<in> set rest. isspace x then Some True else None)
          else if c = CHR ''N'' \<or> c = CHR ''n'' then
            (if \<forall>x \<in> set rest. isspace x then Some False else None)
          else None)"
proof -
  let ?n = "length (takeWhile isspace text)"
  have p: "skip_ws text 0 = ?n" by (simp add: skip_ws_takeWhile)
  have dw: "dropWhile isspace text = drop ?n text"
    by (simp add: dropWhile_eq_drop)
  show ?thesis
  proof (cases "?n \<ge> length text")
    case True
    then show ?thesis by (simp add: parse_bool_def p dw)
  next
    case False
    then have lt: "?n < length text" by simp
    then have d: "drop ?n text = text ! ?n # drop (Suc ?n) text"
      by (simp add: Cons_nth_drop_Suc)
    from lt have "Suc ?n \<le> length text" by simp
    then have a: "(skip_ws text (Suc ?n) \<ge> length text)
        = (\<forall>c \<in> set (drop (Suc ?n) text). isspace c)"
      by (rule skip_ws_all_space)
    from lt show ?thesis
      unfolding parse_bool_def p dw d Let_def a by simp
  qed
qed

lemma not_space_YN [simp]:
  "\<not> isspace CHR ''Y''" "\<not> isspace CHR ''y''" "\<not> isspace CHR ''N''" "\<not> isspace CHR ''n''"
  by (simp_all add: isspace_def)

lemma parse_bool_True_iff:
  "(parse_bool tx = Some True) =
      (\<exists>ws1 c ws2. tx = ws1 @ c # ws2 \<and> (\<forall>x \<in> set ws1. isspace x) \<and>
         (c = CHR ''Y'' \<or> c = CHR ''y'') \<and> (\<forall>x \<in> set ws2. isspace x))"
proof
  assume "parse_bool tx = Some True"
  then obtain c rest where dw: "dropWhile isspace tx = c # rest"
    and c: "c = CHR ''Y'' \<or> c = CHR ''y''" and r: "\<forall>x \<in> set rest. isspace x"
    by (auto simp: parse_bool_dropWhile split: list.splits if_splits)
  from dw obtain ws where "tx = ws @ c # rest" "\<forall>x \<in> set ws. isspace x"
    by (auto simp: dropWhile_decomp)
  with c r show "\<exists>ws1 c ws2. tx = ws1 @ c # ws2 \<and> (\<forall>x \<in> set ws1. isspace x) \<and>
       (c = CHR ''Y'' \<or> c = CHR ''y'') \<and> (\<forall>x \<in> set ws2. isspace x)"
    by blast
next
  assume "\<exists>ws1 c ws2. tx = ws1 @ c # ws2 \<and> (\<forall>x \<in> set ws1. isspace x) \<and>
       (c = CHR ''Y'' \<or> c = CHR ''y'') \<and> (\<forall>x \<in> set ws2. isspace x)"
  then obtain ws1 c ws2 where t: "tx = ws1 @ c # ws2" and w: "\<forall>x \<in> set ws1. isspace x"
    and c: "c = CHR ''Y'' \<or> c = CHR ''y''" and r: "\<forall>x \<in> set ws2. isspace x"
    by blast
  from c have "\<not> isspace c" by auto
  with t w have "dropWhile isspace tx = c # ws2"
    by (auto simp: dropWhile_decomp)
  with c r show "parse_bool tx = Some True"
    by (auto simp: parse_bool_dropWhile)
qed

lemma parse_bool_False_iff:
  "(parse_bool tx = Some False) =
      (\<exists>ws1 c ws2. tx = ws1 @ c # ws2 \<and> (\<forall>x \<in> set ws1. isspace x) \<and>
         (c = CHR ''N'' \<or> c = CHR ''n'') \<and> (\<forall>x \<in> set ws2. isspace x))"
proof
  assume "parse_bool tx = Some False"
  then obtain c rest where dw: "dropWhile isspace tx = c # rest"
    and c: "c = CHR ''N'' \<or> c = CHR ''n''" and r: "\<forall>x \<in> set rest. isspace x"
    by (auto simp: parse_bool_dropWhile split: list.splits if_splits)
  from dw obtain ws where "tx = ws @ c # rest" "\<forall>x \<in> set ws. isspace x"
    by (auto simp: dropWhile_decomp)
  with c r show "\<exists>ws1 c ws2. tx = ws1 @ c # ws2 \<and> (\<forall>x \<in> set ws1. isspace x) \<and>
       (c = CHR ''N'' \<or> c = CHR ''n'') \<and> (\<forall>x \<in> set ws2. isspace x)"
    by blast
next
  assume "\<exists>ws1 c ws2. tx = ws1 @ c # ws2 \<and> (\<forall>x \<in> set ws1. isspace x) \<and>
       (c = CHR ''N'' \<or> c = CHR ''n'') \<and> (\<forall>x \<in> set ws2. isspace x)"
  then obtain ws1 c ws2 where t: "tx = ws1 @ c # ws2" and w: "\<forall>x \<in> set ws1. isspace x"
    and c: "c = CHR ''N'' \<or> c = CHR ''n''" and r: "\<forall>x \<in> set ws2. isspace x"
    by blast
  from c have "\<not> isspace c" by auto
  with t w have "dropWhile isspace tx = c # ws2"
    by (auto simp: dropWhile_decomp)
  with c r show "parse_bool tx = Some False"
    by (auto simp: parse_bool_dropWhile)
qed

text \<open>
  Claim C8. For every input string, \<^verbatim>\<open>parse_bool\<close> returns true exactly when the
  string is white space, then \<^verbatim>\<open>Y\<close> or \<^verbatim>\<open>y\<close>, then white space only; it returns
  false exactly when that character is \<^verbatim>\<open>N\<close> or \<^verbatim>\<open>n\<close>; it fails on every other
  string. So \<^verbatim>\<open>"y"\<close> gives true, \<^verbatim>\<open>"N  "\<close> gives false and \<^verbatim>\<open>"yes"\<close> fails.
\<close>

theorem parse_bool_exact:
  "((parse_bool tx = Some True) =
      (\<exists>ws1 c ws2. tx = ws1 @ c # ws2 \<and> (\<forall>x \<in> set ws1. isspace x) \<and>
         (c = CHR ''Y'' \<or> c = CHR ''y'') \<and> (\<forall>x \<in> set ws2. isspace x))) \<and>
   ((parse_bool tx = Some False) =
      (\<exists>ws1 c ws2. tx = ws1 @ c # ws2 \<and> (\<forall>x \<in> set ws1. isspace x) \<and>
         (c = CHR ''N'' \<or> c = CHR ''n'') \<and> (\<forall>x \<in> set ws2. isspace x))) \<and>
   ((parse_bool tx = None) =
      (\<not> (\<exists>ws1 c ws2. tx = ws1 @ c # ws2 \<and> (\<forall>x \<in> set ws1. isspace x) \<and>
         (c = CHR ''Y'' \<or> c = CHR ''y'' \<or> c = CHR ''N'' \<or> c = CHR ''n'') \<and>
         (\<forall>x \<in> set ws2. isspace x)))) \<and>
   parse_bool ''y'' = Some True \<and> parse_bool ''N  '' = Some False \<and>
   parse_bool ''yes'' = None"
proof -
  have n: "(parse_bool tx = None) =
      (parse_bool tx \<noteq> Some True \<and> parse_bool tx \<noteq> Some False)"
    by (cases "parse_bool tx") auto
  have 3: "(parse_bool tx = None) =
      (\<not> (\<exists>ws1 c ws2. tx = ws1 @ c # ws2 \<and> (\<forall>x \<in> set ws1. isspace x) \<and>
         (c = CHR ''Y'' \<or> c = CHR ''y'' \<or> c = CHR ''N'' \<or> c = CHR ''n'') \<and>
         (\<forall>x \<in> set ws2. isspace x)))"
    unfolding n parse_bool_True_iff parse_bool_False_iff by blast
  have 4: "parse_bool ''y'' = Some True"
    by (simp add: parse_bool_dropWhile isspace_def)
  have 5: "parse_bool ''N  '' = Some False"
    by (simp add: parse_bool_dropWhile isspace_def)
  have 6: "parse_bool ''yes'' = None"
    by (simp add: parse_bool_dropWhile isspace_def)
  from parse_bool_True_iff [of tx] parse_bool_False_iff [of tx] 3 4 5 6
  show ?thesis by (intro conjI)
qed

theorem parse_bool_exact_witness:
  "parse_bool [CHR '' '', CHR ''n'', CHR '' ''] = Some False"
proof -
  have s: "isspace CHR '' ''" by (simp add: isspace_def)
  have e: "[CHR '' '', CHR ''n'', CHR '' ''] = [CHR '' ''] @ CHR ''n'' # [CHR '' '']"
    by simp
  have w: "\<forall>x \<in> set [CHR '' '']. isspace x"
    using s by simp
  from e w have "\<exists>ws1 c ws2. [CHR '' '', CHR ''n'', CHR '' ''] = ws1 @ c # ws2 \<and>
        (\<forall>x \<in> set ws1. isspace x) \<and> (c = CHR ''N'' \<or> c = CHR ''n'') \<and>
        (\<forall>x \<in> set ws2. isspace x)"
    by blast
  then show ?thesis
    using parse_bool_exact [of "[CHR '' '', CHR ''n'', CHR '' '']"] by simp
qed

section \<open>The number decoder\<close>

lemma nbits_pow: "0 < n \<Longrightarrow> 2 ^ nbits n \<le> 2 * n"
proof (induction n rule: nbits.induct)
  case (1 n)
  show ?case
  proof (cases "n div 2 = 0")
    case True
    with 1(2) have "n = 1" by (simp add: div_eq_0_iff) 
    then show ?thesis by (simp add: nbits.simps)
  next
    case False
    then have "0 < n div 2" by simp
    with 1 have "2 ^ nbits (n div 2) \<le> 2 * (n div 2)" by simp
    also have "\<dots> \<le> n" by simp
    finally have "2 * 2 ^ nbits (n div 2) \<le> 2 * n" by simp
    with 1(2) show ?thesis by (subst nbits.simps) simp
  qed
qed

lemma rne53_half: "n \<le> 2 * rne53 n"
proof (cases "nbits n - 53 = 0")
  case True
  then show ?thesis by (simp add: rne53_def)
next
  case False
  define e where "e = nbits n - 53"
  define q where "q = n div 2 ^ e"
  from False have e: "0 < e" and nb: "nbits n = e + 53" by (simp_all add: e_def)
  then have pos: "0 < n" by (cases "n = 0") (simp_all add: nbits.simps)
  from nbits_pow [OF pos] nb have "2 ^ e * (2::nat) ^ 53 \<le> 2 * n"
    by (simp add: power_add)
  moreover have "(2::nat) * 2 ^ e \<le> 2 ^ e * 2 ^ 53" by simp
  ultimately have "(2::nat) ^ e \<le> n" by linarith
  then have q1: "1 \<le> q" unfolding q_def
    by (simp add: Suc_le_eq div_greater_zero_iff)
  have "n = q * 2 ^ e + n mod 2 ^ e"
    unfolding q_def by (rule div_mult_mod_eq [symmetric])
  moreover have "n mod 2 ^ e < 2 ^ e" by simp
  ultimately have "n < q * 2 ^ e + 2 ^ e" by linarith
  also from q1 have "\<dots> \<le> q * 2 ^ e + q * 2 ^ e" by simp
  finally have lt: "n < 2 * (q * 2 ^ e)" by simp
  have "q * 2 ^ e \<le> rne53 n"
    using False by (simp add: rne53_def Let_def e_def [symmetric] q_def [symmetric])
  with lt show ?thesis by linarith
qed

lemma dbl_madd_not_less: "\<not> dbl_less (dbl_add (dbl_mul10 r) d) r"
proof (cases r)
  case PInf
  then show ?thesis by simp
next
  case (Fin a)
  show ?thesis
  proof (cases "dbl_mul10 r")
    case PInf
    then show ?thesis by simp
  next
    case m: (Fin m)
    with Fin have m_def: "m = rne53 (a * 10)"
      by (simp add: dbl_round_def Let_def split: if_splits)
    show ?thesis
    proof (cases "dbl_add (dbl_mul10 r) d")
      case PInf
      then show ?thesis by simp
    next
      case m': (Fin m')
      with m have "m' = rne53 (m + d)"
        by (simp add: dbl_round_def Let_def split: if_splits)
      with rne53_half [of "m + d"] have "m + d \<le> 2 * m'" by simp
      moreover from rne53_half [of "a * 10"] m_def have "a * 10 \<le> 2 * m" by simp
      ultimately have "a \<le> m'" by linarith
      with m' Fin show ?thesis by simp
    qed
  qed
qed

lemma pn_loop_digits:
  "pos \<le> length tx \<Longrightarrow> \<forall>c \<in> set (drop pos tx). isdigit c \<Longrightarrow>
   \<exists>r'. pn_loop tx pos isf r k =
     Some (length tx, r', (if isf then k + (length tx - pos) else k))"
proof (induction tx pos isf r k rule: pn_loop.induct)
  case (1 tx pos isf r k)
  show ?case
  proof (cases "pos < length tx")
    case False
    with 1(3) show ?thesis by (subst pn_loop.simps) simp
  next
    case True
    then have d: "drop pos tx = tx ! pos # drop (Suc pos) tx"
      by (simp add: Cons_nth_drop_Suc)
    with 1(4) have dig: "isdigit (tx ! pos)"
      and rest: "\<forall>c \<in> set (drop (Suc pos) tx). isdigit c" by simp_all
    from dig have nd: "tx ! pos \<noteq> CHR ''.''" by (rule isdigit_not_dot)
    define r' where "r' = dbl_add (dbl_mul10 r) (digit_val (tx ! pos))"
    have nl: "\<not> dbl_less r' r" unfolding r'_def by (rule dbl_madd_not_less)
    from True have le: "Suc pos \<le> length tx" by simp
    have "\<exists>r''. pn_loop tx (Suc pos) isf r' (if isf then Suc k else k) =
       Some (length tx, r'', (if isf then (if isf then Suc k else k) + (length tx - Suc pos)
                               else (if isf then Suc k else k)))"
      using 1(2) [OF True refl nd dig refl r'_def nl le rest] .
    then obtain r'' where "pn_loop tx (Suc pos) isf r' (if isf then Suc k else k) =
       Some (length tx, r'', (if isf then Suc k + (length tx - Suc pos) else k))"
      by auto
    moreover from True have "Suc k + (length tx - Suc pos) = k + (length tx - pos)"
      by simp
    ultimately show ?thesis
      using True nd dig nl
      by (subst pn_loop.simps) (simp add: Let_def r'_def [symmetric])
  qed
qed


lemma pn_loop_dot:
  assumes "pos < length tx" and "tx ! pos = CHR ''.''"
    and "\<forall>c \<in> set (drop (Suc pos) tx). isspace c"
  shows "pn_loop tx pos False r k = Some (Suc pos, r, k)"
proof -
  have nxt: "pn_loop tx (Suc pos) True r k = Some (Suc pos, r, k)"
  proof (cases "Suc pos < length tx")
    case False
    then show ?thesis by (subst pn_loop.simps) simp
  next
    case True
    then have "tx ! Suc pos \<in> set (drop (Suc pos) tx)"
      by (simp add: Cons_nth_drop_Suc [symmetric])
    with assms(3) have "isspace (tx ! Suc pos)" by blast
    then have "tx ! Suc pos \<noteq> CHR ''.'' \<and> \<not> isdigit (tx ! Suc pos)"
      by (rule isspace_not_dot_digit)
    with True show ?thesis by (subst pn_loop.simps) simp
  qed
  from assms(1,2) show ?thesis
    by (subst pn_loop.simps) (simp add: nxt)
qed

lemma pn_body_dot:
  assumes "pos < length tx" and "tx ! pos = CHR ''.''"
    and "\<forall>c \<in> set (drop (Suc pos) tx). isspace c"
  shows "pn_body tx neg pos = Some \<lparr>num_neg = neg, num_acc = Fin 0, num_fdiv = 0\<rparr>"
proof -
  from assms(1) have "Suc pos \<le> length tx" by simp
  from skip_ws_all_space [OF this] assms(3) have "length tx \<le> skip_ws tx (Suc pos)"
    by simp
  then show ?thesis
    by (simp add: pn_body_def pn_loop_dot [OF assms])
qed

text \<open>
  A string of decimal digits that is not empty always decodes: a rounded multiply-add
  of a double that is not negative never yields less than it started from, so the test
  \<^verbatim>\<open>r < pr\<close> of the digit loop is never true.
\<close>

lemma parse_number_digits_succeed:
  assumes ne: "ds \<noteq> []" and dig: "\<forall>c \<in> set ds. isdigit c"
  shows "\<exists>r. parse_number ds = Some \<lparr>num_neg = False, num_acc = r, num_fdiv = 0\<rparr>"
proof -
  from ne have l: "0 < length ds" by simp
  with dig have d0: "isdigit (ds ! 0)" by (simp add: nth_mem del: nth_Cons_0)
  with l have s0: "skip_ws ds 0 = 0" by (simp add: skip_ws_nonspace isdigit_not_space)
  from dig have "\<forall>c \<in> set (drop 0 ds). isdigit c" by simp
  with pn_loop_digits [of 0 ds False "Fin 0" 0]
  obtain r' where lp: "pn_loop ds 0 False (Fin 0) 0 = Some (length ds, r', 0)" by auto
  have "pn_body ds False 0 = Some \<lparr>num_neg = False, num_acc = r', num_fdiv = 0\<rparr>"
    by (simp add: pn_body_def lp skip_ws_end)
  with l s0 d0 show ?thesis
    by (simp add: parse_number_def Let_def isdigit_not_sign)
qed

lemmas number_eval = parse_number_def pn_body_def pn_loop.simps skip_ws.simps isspace_def
  isdigit_def digit_val_def dbl_round_def rne53_def nbits.simps Let_def

text \<open>
  Claim C2, as the spec states it: \<^verbatim>\<open>parse_number\<close> fails on twenty nines. It does
  not fail.
\<close>

theorem parse_number_twenty_nines:
  "parse_number ''99999999999999999999'' \<noteq> None"
  by (simp add: number_eval)

text \<open>
  Claim C2, amended. \<^verbatim>\<open>parse_number\<close> succeeds on twenty nines: the accumulator is a
  \<^verbatim>\<open>double\<close>, each multiply-add step rounds and none comes out smaller than the value
  before it, and the result is the double \<open>100000000000000016384\<close>, positive, with
  no digit behind a decimal point.
\<close>

theorem parse_number_twenty_nines_value:
  "parse_number ''99999999999999999999'' =
     Some \<lparr>num_neg = False, num_acc = Fin 100000000000000016384, num_fdiv = 0\<rparr>"
  by (simp add: number_eval)

text \<open>
  Claim C10. \<^verbatim>\<open>parse_number\<close> succeeds on an input with a decimal point and no digit:
  white space, an optional sign, the point, white space. The accumulator is the double
  0, so the value stored, \<^verbatim>\<open>r * f\<close>, is zero.
\<close>

theorem parse_number_lone_point:
  assumes w1: "\<forall>c \<in> set ws1. isspace c" and w2: "\<forall>c \<in> set ws2. isspace c"
    and sgc: "sg = [] \<or> sg = [CHR ''+''] \<or> sg = [CHR ''-'']"
  shows "parse_number (ws1 @ sg @ [CHR ''.''] @ ws2) =
           Some \<lparr>num_neg = (sg = [CHR ''-'']), num_acc = Fin 0, num_fdiv = 0\<rparr>"
proof (cases "sg = []")
  case True
  let ?t = "ws1 @ CHR ''.'' # ws2"
  have p: "skip_ws ?t 0 = length ws1"
    using w1 by (rule skip_ws_prefix) (simp add: isspace_def)
  have b: "pn_body ?t False (length ws1) =
      Some \<lparr>num_neg = False, num_acc = Fin 0, num_fdiv = 0\<rparr>"
    using w2 by (intro pn_body_dot) simp_all
  from True show ?thesis
    by (simp add: parse_number_def p b)
next
  case False
  with sgc obtain s where s: "sg = [s]" "s = CHR ''+'' \<or> s = CHR ''-''" by auto
  let ?t = "ws1 @ s # CHR ''.'' # ws2"
  from s(2) have ns: "\<not> isspace s" by (auto simp: isspace_def)
  have p: "skip_ws ?t 0 = length ws1"
    using w1 ns by (rule skip_ws_prefix)
  have q: "skip_ws ?t (length ws1) = length ws1"
    using ns by (intro skip_ws_nonspace) simp_all
  have "?t ! Suc (length ws1) = CHR ''.''"
    by (simp add: nth_append)
  moreover have "drop (Suc (Suc (length ws1))) ?t = ws2" by simp
  ultimately have b: "pn_body ?t (s = CHR ''-'') (Suc (length ws1)) =
      Some \<lparr>num_neg = (s = CHR ''-''), num_acc = Fin 0, num_fdiv = 0\<rparr>"
    using w2 by (intro pn_body_dot) simp_all
  from s show ?thesis
    by (auto simp add: parse_number_def Let_def p q b)
qed

theorem parse_number_lone_point_witness:
  "parse_number ''-.'' = Some \<lparr>num_neg = True, num_acc = Fin 0, num_fdiv = 0\<rparr> \<and>
   parse_number '' . '' = Some \<lparr>num_neg = False, num_acc = Fin 0, num_fdiv = 0\<rparr>"
  using parse_number_lone_point [of "[]" "[]" "''-''"]
    parse_number_lone_point [of "'' ''" "'' ''" "[]"]
  by (simp add: isspace_def)

section \<open>The datetime decoder\<close>

lemma pd_loop_bounded_digits:
  "pd_loop w tx pos slen True i val = (k, v) \<Longrightarrow> k \<noteq> 0 \<Longrightarrow>
   i \<le> j \<Longrightarrow> pos + j < slen \<Longrightarrow> isdigit (tx ! (pos + j))"
proof (induction w tx pos slen True i val rule: pd_loop.induct)
  case (1 wrap tx pos slen i val)
  from "1.prems"(3,4) have lt: "pos + i < slen" by simp
  let ?ch = "tx ! (pos + i)"
  let ?v = "wrap (wrap (val * 10) + int (digit_val ?ch))"
  from "1.prems"(1,2) lt have dig: "isdigit ?ch"
    by (subst (asm) pd_loop.simps) (auto simp: Let_def split: if_splits)
  from "1.prems"(1,2) lt dig have nl: "\<not> ?v < val"
    by (subst (asm) pd_loop.simps) (auto simp: Let_def split: if_splits)
  from "1.prems"(1) lt dig nl have rec: "pd_loop wrap tx pos slen True (Suc i) ?v = (k, v)"
    by (subst (asm) pd_loop.simps) (simp add: Let_def)
  show ?case
  proof (cases "j = i")
    case True
    with dig show ?thesis by simp
  next
    case False
    with "1.prems"(3) have "Suc i \<le> j" by simp
    from "1.hyps" [OF lt refl _ refl refl nl rec "1.prems"(2) this "1.prems"(4)] dig
    show ?thesis by simp
  qed
qed

lemma parse_digits_bounded_digits:
  assumes "parse_digits w tx pos (Some n) = (k, v)" and "k \<noteq> 0" and "j < n"
  shows "isdigit (tx ! (pos + j))"
proof -
  from assms(1,2) have "pd_loop w tx pos (pos + n) True 0 0 = (k, v)"
    by (auto simp: parse_digits_def split: if_splits)
  from pd_loop_bounded_digits [OF this assms(2), of j] assms(3) show ?thesis by simp
qed

lemma digits_value_snoc: "digits_value (ds @ [c]) = digits_value ds * 10 + int (digit_val c)"
  by (simp add: digits_value_def)

lemma digit_val_le: "isdigit c \<Longrightarrow> digit_val c \<le> 9"
  by (auto simp: isdigit_def digit_val_def)

lemma wrap_int_range: "- (2 ^ 31) \<le> wrap_int x \<and> wrap_int x < 2 ^ 31"
  by (simp add: wrap_int_def)

lemma wrap_int_id: "- (2 ^ 31) \<le> x \<Longrightarrow> x < 2 ^ 31 \<Longrightarrow> wrap_int x = x"
  by (simp add: wrap_int_def)


lemma tz_inv_step:
  assumes inv: "tz_inv val n" and d: "d \<le> 9"
    and nl: "\<not> wrap_int (wrap_int (val * 10) + int d) < val"
  shows "tz_inv (wrap_int (wrap_int (val * 10) + int d)) (n * 10 + int d)"
proof -
  let ?v = "wrap_int (wrap_int (val * 10) + int d)"
  from inv have v0: "0 \<le> val" and vr: "val < 2 ^ 31" by (simp_all add: tz_inv_def)
  from nl have ge: "val \<le> ?v" by simp
  have r: "?v < 2 ^ 31" using wrap_int_range [of "wrap_int (val * 10) + int d"] by simp
  from inv consider (exact) "val = n" | (big) "12 < val" "12 < n" by (auto simp: tz_inv_def)
  then show ?thesis
  proof cases
    case big
    with ge v0 r show ?thesis by (simp add: tz_inv_def)
  next
    case exact
    show ?thesis
    proof (cases "val * 10 + int d < 2 ^ 31")
      case True
      with v0 have "wrap_int (val * 10) = val * 10" by (intro wrap_int_id) simp_all
      moreover from True v0 have "wrap_int (val * 10 + int d) = val * 10 + int d"
        by (intro wrap_int_id) simp_all
      ultimately have "?v = n * 10 + int d" using exact by simp
      with v0 True exact show ?thesis by (simp add: tz_inv_def)
    next
      case False
      with d have "12 < val" by simp
      with ge v0 r exact show ?thesis by (simp add: tz_inv_def)
    qed
  qed
qed


lemma pd_loop_run:
  assumes dr: "drop pos tx = ds @ rest" and dig: "\<forall>c \<in> set ds. isdigit c"
    and rst: "rest = [] \<or> \<not> isdigit (hd rest)"
  shows "i \<le> length ds \<Longrightarrow> tz_inv val (digits_value (take i ds)) \<Longrightarrow>
    pd_loop wrap_int tx pos (length tx) False i val = (k, v) \<Longrightarrow>
    k = 0 \<or> (k = length ds \<and> tz_inv v (digits_value ds))"
proof (induction "length ds - i" arbitrary: i val)
  case 0
  have len: "length tx - pos = length ds + length rest"
    using arg_cong [OF dr, of length] by simp
  from 0 have i: "i = length ds" by simp
  show ?case
  proof (cases "pos + i < length tx")
    case False
    with "0.prems"(3) have "k = i \<and> v = val" by (subst (asm) pd_loop.simps) simp
    with i "0.prems"(2) show ?thesis by simp
  next
    case True
    then have "tx ! (pos + i) = drop pos tx ! i" by simp
    also have "\<dots> = rest ! 0" using i dr by (simp add: nth_append)
    finally have ch: "tx ! (pos + i) = rest ! 0" .
    from True i len have "rest \<noteq> []" by auto
    with rst have "\<not> isdigit (rest ! 0)" by (simp add: hd_conv_nth)
    with ch True "0.prems"(3) have "(k = 0 \<or> k = i) \<and> v = val"
      by (subst (asm) pd_loop.simps) (auto simp: Let_def split: if_splits)
    with i "0.prems"(2) show ?thesis by auto
  qed
next
  case (Suc n)
  then have lt: "i < length ds" by simp
  have "length tx - pos = length ds + length rest"
    using arg_cong [OF dr, of length] by simp
  with lt have inb: "pos + i < length tx" by simp
  then have "tx ! (pos + i) = drop pos tx ! i" by simp
  also have "\<dots> = ds ! i" using lt dr by (simp add: nth_append)
  finally have ch: "tx ! (pos + i) = ds ! i" .
  from lt dig have d: "isdigit (ds ! i)" by simp
  let ?v = "wrap_int (wrap_int (val * 10) + int (digit_val (ds ! i)))"
  show ?case
  proof (cases "?v < val")
    case True
    with inb ch d Suc.prems(3) have "k = 0"
      by (subst (asm) pd_loop.simps) (simp add: Let_def)
    then show ?thesis by simp
  next
    case False
    with inb ch d Suc.prems(3)
    have rec: "pd_loop wrap_int tx pos (length tx) False (Suc i) ?v = (k, v)"
      by (subst (asm) pd_loop.simps) (simp add: Let_def)
    have "take (Suc i) ds = take i ds @ [ds ! i]"
      using lt by (rule take_Suc_conv_app_nth)
    then have dv: "digits_value (take (Suc i) ds)
        = digits_value (take i ds) * 10 + int (digit_val (ds ! i))"
      by (simp add: digits_value_snoc)
    from tz_inv_step [OF Suc.prems(2) digit_val_le [OF d] False] dv
    have inv': "tz_inv ?v (digits_value (take (Suc i) ds))" by simp
    from Suc.hyps(2) have "n = length ds - Suc i" by simp
    from Suc.hyps(1) [OF this _ inv' rec] lt show ?thesis by simp
  qed
qed

lemma parse_digits_run:
  assumes "drop pos tx = ds @ rest" and "\<forall>c \<in> set ds. isdigit c"
    and "rest = [] \<or> \<not> isdigit (hd rest)" and "12 < digits_value ds"
    and "parse_digits wrap_int tx pos None = (k, v)"
  shows "k = 0 \<or> 12 < v"
proof -
  from assms(5) have "pd_loop wrap_int tx pos (length tx) False 0 0 = (k, v)"
    by (simp add: parse_digits_def)
  moreover have "tz_inv 0 (digits_value (take 0 ds))"
    by (simp add: tz_inv_def digits_value_def)
  ultimately have "k = 0 \<or> (k = length ds \<and> tz_inv v (digits_value ds))"
    using pd_loop_run [OF assms(1-3), of 0 0 k v] by simp
  with assms(4) show ?thesis by (auto simp: tz_inv_def)
qed

lemma parse_tz_hours:
  assumes dr: "drop i0 tx = CHR ''['' # ws @ sg @ ds @ rest"
    and ws: "\<forall>c \<in> set ws. isspace c"
    and sg: "sg = [] \<or> sg = [CHR ''+''] \<or> sg = [CHR ''-'']"
    and ne: "ds \<noteq> []" and dig: "\<forall>c \<in> set ds. isdigit c"
    and rst: "rest = [] \<or> \<not> isdigit (hd rest)" and big: "12 < digits_value ds"
  shows "parse_tz tx i0 = None"
proof -
  from dr have i0: "i0 < length tx"
    by (metis drop_all leI list.distinct(1))
  then have t0: "tx ! i0 = CHR ''[''" using dr by (metis nth_via_drop)
  from i0 dr have d1: "drop (Suc i0) tx = ws @ sg @ ds @ rest"
    by (metis Cons_nth_drop_Suc list.inject)
  from ne obtain d0 ds' where ds: "ds = d0 # ds'" by (cases ds) auto
  with dig have dd0: "isdigit d0" by simp
  define x where "x = hd (sg @ ds)"
  define xs where "xs = tl (sg @ ds) @ rest"
  from ds have sx: "sg @ ds @ rest = x # xs" by (cases sg) (simp_all add: x_def xs_def)
  have nsx: "\<not> isspace x"
  proof (cases "sg = []")
    case True
    with ds have "x = d0" by (simp add: x_def)
    with dd0 show ?thesis by (simp add: isdigit_not_space)
  next
    case False
    with sg have "x = CHR ''+'' \<or> x = CHR ''-''" by (auto simp: x_def)
    then show ?thesis by (auto simp: isspace_def)
  qed
  from ws nsx have "takeWhile isspace (ws @ x # xs) = ws" by (simp add: takeWhile_append2)
  with d1 sx i0 have i1: "skip_ws tx (Suc i0) = Suc i0 + length ws"
    by (simp add: skip_ws_takeWhile)
  let ?i1 = "Suc i0 + length ws"
  from d1 have d2: "drop ?i1 tx = sg @ ds @ rest"
    by (metis add.commute append_eq_conv_conj drop_drop)
  with sx have i1lt: "?i1 < length tx" by (metis drop_all leI list.distinct(1))
  from d2 sx i1lt have t1: "tx ! ?i1 = x" by (metis nth_via_drop)
  have signed: "(tx ! ?i1 = CHR ''-'' \<or> tx ! ?i1 = CHR ''+'') = (sg \<noteq> [])"
    using sg ds dd0 t1 by (auto simp: x_def dest: isdigit_not_sign)
  let ?i2 = "if sg \<noteq> [] then Suc ?i1 else ?i1"
  have d3: "drop ?i2 tx = ds @ rest"
  proof (cases "sg = []")
    case True
    with d2 show ?thesis by simp
  next
    case False
    with sg obtain s where "sg = [s]" by auto
    with d2 have "drop ?i1 tx = s # ds @ rest" by simp
    then have "drop (Suc ?i1) tx = ds @ rest" by (metis drop_Suc tl_drop list.sel(3))
    with False show ?thesis by simp
  qed
  with ds have i2lt: "?i2 < length tx" by (metis append_Cons drop_all leI list.distinct(1))
  obtain k v where pd: "parse_digits wrap_int tx ?i2 None = (k, v)"
    by (cases "parse_digits wrap_int tx ?i2 None") auto
  from parse_digits_run [OF d3 dig rst big pd] have kv: "k = 0 \<or> 12 < v" .
  have nsg: "\<not> (sg \<noteq> [] \<and> length tx \<le> Suc ?i1)" using i2lt by auto
  show ?thesis
    unfolding parse_tz_def Let_def i1 using t0 i1lt signed nsg pd kv
    by (auto split: if_splits)
qed


lemma field_fail:
  assumes "\<not> isdigit (tx ! q)" and "pos \<le> q" and "q < pos + n"
  shows "fst (parse_digits w tx pos (Some n)) = 0"
proof (rule ccontr)
  assume nz: "fst (parse_digits w tx pos (Some n)) \<noteq> 0"
  obtain k v where pd: "parse_digits w tx pos (Some n) = (k, v)"
    by (cases "parse_digits w tx pos (Some n)") auto
  with nz have "k \<noteq> 0" by simp
  moreover from assms have "q - pos < n" by linarith
  ultimately have "isdigit (tx ! (pos + (q - pos)))"
    using pd by (rule parse_digits_bounded_digits [rotated])
  with assms show False by simp
qed

lemma dt_fail_year:
  "fst (parse_digits wrap_int tx 0 (Some 4)) = 0 \<Longrightarrow> parse_datetime tx = None"
  by (simp add: parse_datetime_def Let_def case_prod_beta split: option.splits)

lemma dt_fail_mon:
  "fst (parse_digits wrap_int tx 4 (Some 2)) = 0 \<Longrightarrow> parse_datetime tx = None"
  by (simp add: parse_datetime_def Let_def case_prod_beta split: option.splits)

lemma dt_fail_mday:
  "fst (parse_digits wrap_int tx 6 (Some 2)) = 0 \<Longrightarrow> parse_datetime tx = None"
  by (simp add: parse_datetime_def Let_def case_prod_beta split: option.splits)

lemma dt_fail_len1: "8 < length tx \<Longrightarrow> length tx < 14 \<Longrightarrow> parse_datetime tx = None"
  by (simp add: parse_datetime_def Let_def case_prod_beta split: option.splits)

lemma dt_fail_hour:
  "14 \<le> length tx \<Longrightarrow> fst (parse_digits wrap_int tx 8 (Some 2)) = 0 \<Longrightarrow>
   parse_datetime tx = None"
  by (simp add: parse_datetime_def Let_def case_prod_beta split: option.splits)

lemma dt_fail_min:
  "14 \<le> length tx \<Longrightarrow> fst (parse_digits wrap_int tx 10 (Some 2)) = 0 \<Longrightarrow>
   parse_datetime tx = None"
  by (simp add: parse_datetime_def Let_def case_prod_beta split: option.splits)

lemma dt_fail_sec:
  "14 \<le> length tx \<Longrightarrow> fst (parse_digits wrap_int tx 12 (Some 2)) = 0 \<Longrightarrow>
   parse_datetime tx = None"
  by (simp add: parse_datetime_def Let_def case_prod_beta split: option.splits)

lemma dt_fail_len2: "14 < length tx \<Longrightarrow> length tx < 18 \<Longrightarrow> parse_datetime tx = None"
  by (simp add: parse_datetime_def Let_def case_prod_beta split: option.splits)

lemma dt_fail_msecs:
  "18 \<le> length tx \<Longrightarrow> tx ! 14 = CHR ''.'' \<Longrightarrow>
   fst (parse_digits wrap_uint tx 15 (Some 3)) = 0 \<Longrightarrow> parse_datetime tx = None"
  by (simp add: parse_datetime_def Let_def case_prod_beta split: option.splits)

lemma dt_fail_tz:
  "18 \<le> length tx \<Longrightarrow>
   skip_ws tx (if tx ! 14 = CHR ''.'' then 18 else 14) < length tx \<Longrightarrow>
   parse_tz tx (skip_ws tx (if tx ! 14 = CHR ''.'' then 18 else 14)) = None \<Longrightarrow>
   parse_datetime tx = None"
  by (cases "tx ! 14 = CHR ''.''")
     (simp_all add: parse_datetime_def Let_def case_prod_beta split: option.splits)

lemma skip_ws_le_nonspace:
  "i \<le> p \<Longrightarrow> p < length str \<Longrightarrow> \<not> isspace (str ! p) \<Longrightarrow> skip_ws str i \<le> p"
proof (induction str i rule: skip_ws.induct)
  case (1 str pos)
  show ?case
  proof (cases "pos < length str \<and> isspace (str ! pos)")
    case True
    with "1.prems" have "pos \<noteq> p" by auto
    with "1.prems" have "Suc pos \<le> p" by simp
    from "1.IH" [OF True this "1.prems"(2,3)] True show ?thesis
      by (subst skip_ws.simps) simp
  next
    case False
    with "1.prems" show ?thesis by (subst skip_ws.simps) auto
  qed
qed


lemma parse_datetime_tz_hours:
  assumes tx: "tx = pre @ CHR ''['' # ws @ sg @ ds @ rest"
    and pre: "CHR ''['' \<notin> set pre"
    and ws: "\<forall>c \<in> set ws. isspace c"
    and sg: "sg = [] \<or> sg = [CHR ''+''] \<or> sg = [CHR ''-'']"
    and ne: "ds \<noteq> []" and dig: "\<forall>c \<in> set ds. isdigit c"
    and rst: "rest = [] \<or> \<not> isdigit (hd rest)" and big: "12 < digits_value ds"
  shows "parse_datetime tx = None"
proof -
  define p where "p = length pre"
  have plt: "p < length tx" by (simp add: tx p_def)
  have tp: "tx ! p = CHR ''[''" by (simp add: tx p_def)
  have dp: "drop p tx = CHR ''['' # ws @ sg @ ds @ rest" by (simp add: tx p_def)
  have nd: "\<not> isdigit (tx ! p)" by (simp add: tp isdigit_def)
  have nsp: "\<not> isspace (tx ! p)" by (simp add: tp isspace_def)
  have before: "\<And>j. j < p \<Longrightarrow> tx ! j \<noteq> CHR ''[''"
  proof -
    fix j assume "j < p"
    then have "tx ! j = pre ! j" "pre ! j \<in> set pre" by (simp_all add: tx p_def nth_append)
    with pre show "tx ! j \<noteq> CHR ''[''" by auto
  qed
  note ff = field_fail [OF nd]
  consider (a) "p < 4" | (b) "4 \<le> p" "p < 6" | (c) "6 \<le> p" "p < 8"
    | (d) "8 \<le> p" "p < 10" | (e) "10 \<le> p" "p < 12" | (f) "12 \<le> p" "p < 14"
    | (g) "14 \<le> p" by linarith
  then show ?thesis
  proof cases
    case a
    then show ?thesis by (intro dt_fail_year ff) simp_all
  next
    case b
    then show ?thesis by (intro dt_fail_mon ff) simp_all
  next
    case c
    then show ?thesis by (intro dt_fail_mday ff) simp_all
  next
    case d
    show ?thesis
    proof (cases "length tx < 14")
      case True
      with d plt show ?thesis by (intro dt_fail_len1) simp_all
    next
      case False
      with d show ?thesis by (intro dt_fail_hour ff) simp_all
    qed
  next
    case e
    show ?thesis
    proof (cases "length tx < 14")
      case True
      with e plt show ?thesis by (intro dt_fail_len1) simp_all
    next
      case False
      with e show ?thesis by (intro dt_fail_min ff) simp_all
    qed
  next
    case f
    show ?thesis
    proof (cases "length tx < 14")
      case True
      with f plt show ?thesis by (intro dt_fail_len1) simp_all
    next
      case False
      with f show ?thesis by (intro dt_fail_sec ff) simp_all
    qed
  next
    case g
    show ?thesis
    proof (cases "length tx < 18")
      case True
      with g plt show ?thesis by (intro dt_fail_len2) simp_all
    next
      case False
      then have l18: "18 \<le> length tx" by simp
      let ?i = "if tx ! 14 = CHR ''.'' then 18 else 14 :: nat"
      show ?thesis
      proof (cases "tx ! 14 = CHR ''.'' \<and> p < 18")
        case True
        with tp have "p \<noteq> 14" by auto
        with g True have "15 \<le> p" "p < 15 + 3" by simp_all
        with l18 True show ?thesis by (intro dt_fail_msecs ff) simp_all
      next
        case False
        with g have ip: "?i \<le> p" by auto
        from skip_ws_le_nonspace [OF ip plt nsp] have le: "skip_ws tx ?i \<le> p" .
        with plt have lt: "skip_ws tx ?i < length tx" by simp
        have "parse_tz tx (skip_ws tx ?i) = None"
        proof (cases "skip_ws tx ?i = p")
          case True
          from parse_tz_hours [OF dp ws sg ne dig rst big] True show ?thesis by simp
        next
          case False
          with le have "skip_ws tx ?i < p" by simp
          then have "tx ! skip_ws tx ?i \<noteq> CHR ''[''" by (rule before)
          then show ?thesis by (simp add: parse_tz_def)
        qed
        with l18 lt show ?thesis by (intro dt_fail_tz)
      qed
    qed
  qed
qed

lemmas datetime_eval = parse_datetime_def parse_tz_def parse_digits_def pd_loop.simps
  skip_ws.simps find_bracket.simps isspace_def isdigit_def digit_val_def wrap_int_def
  wrap_uint_def Let_def

lemmas render_eval = render_datetime_def strftime_FT_def dec_int_def dec02_def
  dec_plus03_def c_div_def dec.simps digit_char_def Let_def

lemma parse_datetime_est:
  "parse_datetime ''20210115120000[-5:EST]'' =
     Some (\<lparr>tm_year = 121, tm_mon = 0, tm_mday = 15, tm_hour = 12, tm_min = 0, tm_sec = 0\<rparr>,
           None, - 300)"
  by (simp add: datetime_eval)

lemma parse_datetime_date_only:
  "parse_datetime ''20210115'' =
     Some (\<lparr>tm_year = 121, tm_mon = 0, tm_mday = 15, tm_hour = 0, tm_min = 0, tm_sec = 0\<rparr>,
           None, 0)"
  by (simp add: datetime_eval)

lemma render_datetime_est:
  "render_datetime
     \<lparr>tm_year = 121, tm_mon = 0, tm_mday = 15, tm_hour = 12, tm_min = 0, tm_sec = 0\<rparr> (- 300) =
   ''2021-01-15T12:00:00-05''"
  by (simp add: render_eval)

lemma render_datetime_date_only:
  "render_datetime
     \<lparr>tm_year = 121, tm_mon = 0, tm_mday = 15, tm_hour = 0, tm_min = 0, tm_sec = 0\<rparr> 0 =
   ''2021-01-15T00:00:00Z''"
  by (simp add: render_eval)

text \<open>
  Claim C7, as the spec states it: \<^verbatim>\<open>20210115120000[-5:EST]\<close> is rendered as
  \<^verbatim>\<open>2021-01-15T12:00:00-05:00\<close>. The value decodes to the offset of \<open>-300\<close> minutes,
  but \<^verbatim>\<open>add_datetime\<close> prints the minutes of the offset only when they are not zero:
  the string it builds ends with \<^verbatim>\<open>-05\<close>.
\<close>

theorem datetime_render_no_minutes:
  "parse_datetime ''20210115120000[-5:EST]'' =
     Some (\<lparr>tm_year = 121, tm_mon = 0, tm_mday = 15, tm_hour = 12, tm_min = 0, tm_sec = 0\<rparr>,
           None, - 300) \<and>
   render_datetime
     \<lparr>tm_year = 121, tm_mon = 0, tm_mday = 15, tm_hour = 12, tm_min = 0, tm_sec = 0\<rparr> (- 300) \<noteq>
   ''2021-01-15T12:00:00-05:00''"
  by (simp add: parse_datetime_est render_datetime_est)

text \<open>
  Claim C7, amended. \<^verbatim>\<open>20210115120000[-5:EST]\<close> decodes to 2021-01-15 12:00:00 with
  the offset of \<open>-300\<close> minutes and is rendered as \<^verbatim>\<open>2021-01-15T12:00:00-05\<close>;
  \<^verbatim>\<open>20210115\<close> decodes to midnight with offset 0 and is rendered with a trailing
  \<^verbatim>\<open>Z\<close>; and a text whose first \<^verbatim>\<open>[\<close> is followed by white space, an optional
  sign and a run of digits that denotes more than 12 does not decode.
\<close>

theorem datetime_decoding:
  "parse_datetime ''20210115120000[-5:EST]'' =
     Some (\<lparr>tm_year = 121, tm_mon = 0, tm_mday = 15, tm_hour = 12, tm_min = 0, tm_sec = 0\<rparr>,
           None, - 300) \<and>
   render_datetime
     \<lparr>tm_year = 121, tm_mon = 0, tm_mday = 15, tm_hour = 12, tm_min = 0, tm_sec = 0\<rparr> (- 300) =
   ''2021-01-15T12:00:00-05'' \<and>
   parse_datetime ''20210115'' =
     Some (\<lparr>tm_year = 121, tm_mon = 0, tm_mday = 15, tm_hour = 0, tm_min = 0, tm_sec = 0\<rparr>,
           None, 0) \<and>
   render_datetime
     \<lparr>tm_year = 121, tm_mon = 0, tm_mday = 15, tm_hour = 0, tm_min = 0, tm_sec = 0\<rparr> 0 =
   ''2021-01-15T00:00:00Z'' \<and>
   (CHR ''['' \<notin> set pre \<and> (\<forall>c \<in> set ws. isspace c) \<and>
    (sg = [] \<or> sg = [CHR ''+''] \<or> sg = [CHR ''-'']) \<and>
    ds \<noteq> [] \<and> (\<forall>c \<in> set ds. isdigit c) \<and> (rest = [] \<or> \<not> isdigit (hd rest)) \<and>
    12 < digits_value ds \<longrightarrow>
    parse_datetime (pre @ CHR ''['' # ws @ sg @ ds @ rest) = None)"
proof (intro conjI impI)
  assume "CHR ''['' \<notin> set pre \<and> (\<forall>c \<in> set ws. isspace c) \<and>
    (sg = [] \<or> sg = [CHR ''+''] \<or> sg = [CHR ''-'']) \<and>
    ds \<noteq> [] \<and> (\<forall>c \<in> set ds. isdigit c) \<and> (rest = [] \<or> \<not> isdigit (hd rest)) \<and>
    12 < digits_value ds"
  then show "parse_datetime (pre @ CHR ''['' # ws @ sg @ ds @ rest) = None"
    by (intro parse_datetime_tz_hours [OF refl]) simp_all
qed (rule parse_datetime_est render_datetime_est parse_datetime_date_only
      render_datetime_date_only)+

theorem datetime_decoding_witness:
  "parse_datetime ''20210115120000[13:EST]'' = None \<and>
   parse_datetime ''20210115120000[ -13]'' = None"
  using datetime_decoding [of "''20210115120000''" "[]" "[]" "''13''" "'':EST]''"]
    datetime_decoding [of "''20210115120000''" "'' ''" "''-''" "''13''" "'']''"]
  by (simp add: isdigit_def isspace_def digits_value_def digit_val_def)

section \<open>The builder\<close>

lemmas tokenizer_eval = iterate_elements.simps read_element_def read_name.simps read_text_def
  rt_loop.simps attr_loop.simps read_attr_def read_attrval.simps name_end_def
  try_xml_decode_def xd_loop.simps xd_step_def scan_entity.simps xml_entities_def attrs_insert_def
  skip_ws.simps isspace_def Let_def

lemmas builder_eval = handle_element_def handle_tag_def handle_close_def close_scan.simps
  push_tag_def add_string_def add_number_def add_bool_def add_datetime_def
  new_container_def make_shared_def push_container_def pop_container_def
  done_container_def AddMember_def PushBack_def move_out_def str_lower_def tolower_def
  c_str_def
  initial_ctx_def finish_ofx_def process_ofx_def




subsection \<open>The values of the frames in the contexts the builder reaches\<close>






























lemma add_leaf_cases:
  assumes "r = (case fmt of
                  string \<Rightarrow> add_string element tx pctx
                | number \<Rightarrow> add_number element tx pctx
                | boolean \<Rightarrow> add_bool element tx pctx
                | datetime \<Rightarrow> add_datetime element tx pctx)"
  shows "(\<exists>pctx'. r = Inr pctx' \<and> ostack pctx' = ostack pctx) \<or>
         (\<exists>pctx'. r = Inl (Aborted, pctx') \<and>
            (fmt = number \<and> parse_number tx = None \<or> fmt = boolean \<and> parse_bool tx = None)) \<or>
         (\<exists>pctx'. r = Inl (AssertionFailed, pctx') \<and>
            (\<forall>ms. heap pctx ! c_val (hd (ostack pctx)) \<noteq> JObject ms))"
proof -
  have am: "\<And>k v. (\<exists>pctx'. AddMember (c_val (hd (ostack pctx))) k v pctx = Inr pctx' \<and>
                 ostack pctx' = ostack pctx) \<or>
            (\<exists>pctx'. AddMember (c_val (hd (ostack pctx))) k v pctx = Inl (AssertionFailed, pctx') \<and>
                 (\<forall>ms. heap pctx ! c_val (hd (ostack pctx)) \<noteq> JObject ms))"
  proof -
    fix k v
    show "(\<exists>pctx'. AddMember (c_val (hd (ostack pctx))) k v pctx = Inr pctx' \<and>
                 ostack pctx' = ostack pctx) \<or>
            (\<exists>pctx'. AddMember (c_val (hd (ostack pctx))) k v pctx = Inl (AssertionFailed, pctx') \<and>
                 (\<forall>ms. heap pctx ! c_val (hd (ostack pctx)) \<noteq> JObject ms))"
      by (cases "heap pctx ! c_val (hd (ostack pctx))") (simp_all add: AddMember_def)
  qed
  show ?thesis
  proof (cases fmt)
    case string
    with assms am [of "c_str (str_lower element)" "JString (c_str tx)"] show ?thesis
      by (auto simp: add_string_def)
  next
    case number
    show ?thesis
    proof (cases "parse_number tx")
      case None
      with number assms show ?thesis by (simp add: add_number_def)
    next
      case (Some v)
      with number assms am [of "c_str (str_lower element)" "JNumber v"] show ?thesis
        by (auto simp: add_number_def)
    qed
  next
    case boolean
    show ?thesis
    proof (cases "parse_bool tx")
      case None
      with boolean assms show ?thesis by (simp add: add_bool_def)
    next
      case (Some v)
      with boolean assms am [of "c_str (str_lower element)" "JBool v"] show ?thesis
        by (auto simp: add_bool_def)
    qed
  next
    case datetime
    show ?thesis
    proof (cases "parse_datetime tx")
      case None
      with datetime assms am [of "c_str (str_lower element)" "JString (c_str tx)"] show ?thesis
        by (auto simp: add_datetime_def add_string_def)
    next
      case (Some r)
      obtain t ms tz where "r = (t, ms, tz)" by (cases r) auto
      with Some datetime assms am [of "c_str (str_lower element)" "JString (c_str (render_datetime t tz))"]
      show ?thesis
        by (auto simp: add_datetime_def add_string_def)
    qed
  qed
qed

text \<open>
  Claim C6. An open event for a tag that is not a child container of the front
  container, declared as a leaf or not, leaves the stack as it was but for the pair of
  the tag and its text, appended to the pending tags of that container. This holds
  whenever the handler returns; it does not return when a number or a boolean leaf does
  not decode (\<^verbatim>\<open>abort()\<close>) or when a leaf is added to a value that is not an object (an
  assertion of the JSON library).
\<close>

theorem open_event_records_tag:
  assumes ev: "element \<noteq> []" "hd element \<noteq> CHR ''/''"
    and st: "ostack pctx = this # rest"
    and nc: "map_of (sub (c_cont this)) element = None"
  shows "(case handle_element pctx element attrs tx of
            Inr pctx' \<Rightarrow>
              ostack pctx' = this\<lparr>c_tags := c_tags this @ [(element, tx)]\<rparr> # rest
          | Inl (e, pctx') \<Rightarrow>
              (e = Aborted \<and>
                 (map_of (tags (c_cont this)) element = Some number \<and> parse_number tx = None \<or>
                  map_of (tags (c_cont this)) element = Some boolean \<and> parse_bool tx = None)) \<or>
              (e = AssertionFailed \<and> map_of (tags (c_cont this)) element \<noteq> None \<and>
                 (\<forall>ms. heap pctx ! c_val this \<noteq> JObject ms)))"
proof -
  from ev have open_ev: "(case element of [] \<Rightarrow> True | c # _ \<Rightarrow> c \<noteq> CHR ''/'')"
    by (cases element) simp_all
  with st have he: "handle_element pctx element attrs tx = handle_tag element attrs tx pctx"
    by (simp add: handle_element_def)
  show ?thesis
  proof (cases "map_of (tags (c_cont this)) element")
    case None
    with st nc show ?thesis by (simp add: he handle_tag_def push_tag_def)
  next
    case (Some fmt)
    define r where "r = (case fmt of
                  string \<Rightarrow> add_string element tx pctx
                | number \<Rightarrow> add_number element tx pctx
                | boolean \<Rightarrow> add_bool element tx pctx
                | datetime \<Rightarrow> add_datetime element tx pctx)"
    from st nc Some have ht: "handle_tag element attrs tx pctx =
        (case r of Inl e \<Rightarrow> Inl e | Inr pctx' \<Rightarrow> Inr (push_tag element tx pctx'))"
      by (cases fmt) (simp_all add: handle_tag_def r_def)
    from add_leaf_cases [OF r_def] st Some show ?thesis
      by (auto simp: he ht push_tag_def)
  qed
qed


theorem open_event_records_tag_witness:
  "(case handle_element
     \<lparr>doc = 0,
        ostack = [\<lparr>c_name = ''SONRS'', c_cont = ofx_signon_sonrs, c_val = 1, c_tags = []\<rparr>],
        heap = [JObject [], JObject []]\<rparr>
     ''BOGUS'' [] ''text'' of
      Inr pctx' \<Rightarrow>
        ostack pctx' = [\<lparr>c_name = ''SONRS'', c_cont = ofx_signon_sonrs, c_val = 1,
                          c_tags = [(''BOGUS'', ''text'')]\<rparr>]
    | Inl e \<Rightarrow> False)"
  using open_event_records_tag [where element = "''BOGUS''"
      and pctx = "\<lparr>doc = 0,
        ostack = [\<lparr>c_name = ''SONRS'', c_cont = ofx_signon_sonrs, c_val = 1, c_tags = []\<rparr>],
        heap = [JObject [], JObject []]\<rparr>"
      and this = "\<lparr>c_name = ''SONRS'', c_cont = ofx_signon_sonrs, c_val = 1, c_tags = []\<rparr>"
      and rest = "[]" and attrs = "[]" and tx = "''text''"]
  by (simp add: ofx_signon_sonrs_def split: sum.splits)


section \<open>Close resolution and the driver\<close>

lemma close_scan_True: "close_scan tgs c True = (True, tgs)"
  by (subst close_scan.simps) simp

lemma close_scan_not_found:
  "c \<notin> fst ` set tgs \<Longrightarrow> close_scan tgs c False = (False, [])"
proof (induction tgs rule: rev_induct)
  case Nil
  show ?case by (subst close_scan.simps) simp
next
  case (snoc x xs)
  then show ?case by (subst close_scan.simps) auto
qed

lemma close_scan_found:
  "c \<notin> fst ` set post \<Longrightarrow> close_scan (pre @ (c, t) # post) c False = (True, pre)"
proof (induction post rule: rev_induct)
  case Nil
  show ?case by (subst close_scan.simps) (simp add: close_scan_True)
next
  case (snoc x xs)
  have e: "pre @ (c, t) # xs @ [x] = (pre @ (c, t) # xs) @ [x]" by simp
  have b: "butlast (pre @ (c, t) # xs @ [x]) = pre @ (c, t) # xs"
    unfolding e by (rule butlast_snoc)
  have l: "last (pre @ (c, t) # xs @ [x]) = x"
    unfolding e by (rule last_snoc)
  from snoc show ?case
    by (subst close_scan.simps) (auto simp add: b l)
qed

lemma close_scan_length: "length (snd (close_scan tgs c found)) \<le> length tgs"
proof (induction tgs c found rule: close_scan.induct)
  case (1 tgs close_tag found)
  show ?case
  proof (cases "tgs \<noteq> [] \<and> \<not> found")
    case True
    with 1 have "length (snd (close_scan tgs close_tag found)) \<le> length (butlast tgs)"
      by (subst close_scan.simps) simp
    then show ?thesis by simp
  next
    case False
    then show ?thesis by (subst close_scan.simps) auto
  qed
qed

lemma close_scan_eq:
  "close_scan tgs c False =
     (c \<in> fst ` set tgs, rev (tl (dropWhile (\<lambda>p. fst p \<noteq> c) (rev tgs))))"
proof (induction tgs rule: rev_induct)
  case Nil
  show ?case by (subst close_scan.simps) simp
next
  case (snoc x xs)
  show ?case
  proof (cases "fst x = c")
    case True
    then show ?thesis
      by (subst close_scan.simps) (auto simp add: close_scan_True image_iff)
  next
    case False
    with snoc show ?thesis
      by (subst close_scan.simps) auto
  qed
qed

lemma handle_close_eq:
  "handle_close c this =
     (let tgs = rev (tl (dropWhile (\<lambda>p. fst p \<noteq> c) (rev (c_tags this))));
          fin = (tgs = [] \<and> c = c_name this)
      in (c \<in> fst ` set (c_tags this) \<or> fin, fin, this\<lparr>c_tags := tgs\<rparr>))"
  by (auto simp add: handle_close_def close_scan_eq Let_def)

lemma handle_close_found:
  assumes "c_tags this = pre @ (c, t) # post" and "c \<notin> fst ` set post"
  shows "handle_close c this = (True, pre = [] \<and> c = c_name this, this\<lparr>c_tags := pre\<rparr>)"
  using assms close_scan_found [of c post pre t] by (auto simp add: handle_close_def Let_def)

lemma handle_close_not_found:
  assumes "c \<notin> fst ` set (c_tags this)"
  shows "handle_close c this = (c = c_name this, c = c_name this, this\<lparr>c_tags := []\<rparr>)"
  using assms by (auto simp add: handle_close_def close_scan_not_found Let_def)

lemma close_event_mismatch:
  assumes "ostack pctx = this # rest" and "c \<notin> fst ` set (c_tags this)" and "c \<noteq> c_name this"
  shows "handle_element pctx (CHR ''/'' # c) attrs tx =
           Inl (CloseMismatchError, pctx\<lparr>ostack := this\<lparr>c_tags := []\<rparr> # rest\<rparr>)"
  using assms by (simp add: handle_element_def handle_close_not_found)

lemma close_event_absorbed:
  assumes "ostack pctx = this # rest" and "c_tags this = pre @ (c, t) # post"
    and "c \<notin> fst ` set post" and "pre \<noteq> [] \<or> c \<noteq> c_name this"
  shows "handle_element pctx (CHR ''/'' # c) attrs tx =
           Inr (pctx\<lparr>ostack := this\<lparr>c_tags := pre\<rparr> # rest\<rparr>)"
  using assms handle_close_found [of this pre c t post]
  by (auto simp add: handle_element_def)

lemma done_container_failure:
  "done_container pctx = Inl (e, st) \<Longrightarrow> e = AssertionFailed"
  by (auto simp add: done_container_def AddMember_def PushBack_def
      split: list.splits serialize_as.splits json.splits)

lemma close_event_mismatch_iff:
  assumes "ostack pctx = this # rest"
  shows "(\<exists>st. handle_element pctx (CHR ''/'' # c) attrs tx = Inl (CloseMismatchError, st)) =
         (c \<notin> fst ` set (c_tags this) \<and> c \<noteq> c_name this)"
proof
  assume "c \<notin> fst ` set (c_tags this) \<and> c \<noteq> c_name this"
  with assms show "\<exists>st. handle_element pctx (CHR ''/'' # c) attrs tx = Inl (CloseMismatchError, st)"
    by (simp add: close_event_mismatch)
next
  assume a: "\<exists>st. handle_element pctx (CHR ''/'' # c) attrs tx = Inl (CloseMismatchError, st)"
  show "c \<notin> fst ` set (c_tags this) \<and> c \<noteq> c_name this"
  proof (rule ccontr)
    assume n: "\<not> (c \<notin> fst ` set (c_tags this) \<and> c \<noteq> c_name this)"
    obtain ok fin this' where hc: "handle_close c this = (ok, fin, this')"
      by (cases "handle_close c this") auto
    from hc have ok: "ok = (c \<in> fst ` set (c_tags this) \<or> fin)"
      and fin: "fin = (c_tags this' = [] \<and> c = c_name this)"
      by (auto simp add: handle_close_eq Let_def)
    show False
    proof (cases fin)
      case True
      with a assms hc ok obtain st where
        "map_sum id pop_container (done_container (pctx\<lparr>ostack := this' # rest\<rparr>)) =
           Inl (CloseMismatchError, st)"
        by (auto simp add: handle_element_def)
      then have "done_container (pctx\<lparr>ostack := this' # rest\<rparr>) = Inl (CloseMismatchError, st)"
        by (cases "done_container (pctx\<lparr>ostack := this' # rest\<rparr>)") auto
      then show False using done_container_failure by blast
    next
      case False
      with n ok fin hc have "ok" by (auto simp add: handle_close_not_found)
      with a assms hc False show False by (auto simp add: handle_element_def)
    qed
  qed
qed

lemma close_mismatch_ends_scan:
  assumes "pos < length str" and "skip_ws str pos < length str"
    and "read_element str (skip_ws str pos) = Some (CHR ''/'' # c, el_attrs, el_text, simple_tag, pos_next)"
    and "c \<noteq> ''OFX''" and "ostack pctx = this # rest"
    and "c \<notin> fst ` set (c_tags this)" and "c \<noteq> c_name this"
  shows "iterate_elements str pos handle_element pctx =
           Inl (CloseMismatchError, pctx\<lparr>ostack := this\<lparr>c_tags := []\<rparr> # rest\<rparr>)"
  using assms
  by (subst iterate_elements.simps)
     (simp add: Let_def close_event_mismatch [of pctx this rest c])

text \<open>
  Claim C3. A close event for \<^verbatim>\<open>C\<close> goes to \<^verbatim>\<open>handle_close\<close> of the container at the
  front of the stack, which scans the pending tags of that container from the back and
  removes them up to and including the last entry for \<^verbatim>\<open>C\<close>: what is left is the part
  of the list in front of that entry, and the whole list is removed when no entry is
  for \<^verbatim>\<open>C\<close>. The call returns \<^verbatim>\<open>true\<close> when an entry was found, or when the list
  ended up empty and \<^verbatim>\<open>C\<close> is the name of the container, which is then done. When no
  entry is for \<^verbatim>\<open>C\<close> and \<^verbatim>\<open>C\<close> is not the name of the container, it returns
  \<^verbatim>\<open>false\<close>, the handler fails with the close mismatch, and so does
  \<^verbatim>\<open>iterate_elements\<close> at that element; the handler fails with the close mismatch in
  no other case.

  On the schema of the example, the input \<^verbatim>\<open><A><B><X>hi</X></A>\<close> gives five events. The
  first four, up to position 15, leave the frames of \<^verbatim>\<open>B\<close>, \<^verbatim>\<open>A\<close> and the root on the
  stack, the close of \<^verbatim>\<open>X\<close> having removed the pending tag of \<^verbatim>\<open>B\<close>. The element read
  at position 15 is the close of \<^verbatim>\<open>A\<close>: it goes to the frame of \<^verbatim>\<open>B\<close>, finds no entry,
  is not the name of \<^verbatim>\<open>B\<close>, and the run fails there with the close mismatch, the three
  frames still on the stack. The same happens when \<^verbatim>\<open>X\<close> is still pending at the close
  of \<^verbatim>\<open>A\<close> (input \<^verbatim>\<open><A><B><X>hi</A>\<close>): the scan removes the entry of \<^verbatim>\<open>X\<close> and fails.
  By contrast the close of \<^verbatim>\<open>B\<close> in the same context pops the frame of \<^verbatim>\<open>B\<close> and
  attaches its value to \<^verbatim>\<open>A\<close>, and the input with both closes runs to its end.
\<close>

theorem close_mismatch_is_failure:
  "handle_close c this =
     (let tgs = rev (tl (dropWhile (\<lambda>p. fst p \<noteq> c) (rev (c_tags this))));
          fin = (tgs = [] \<and> c = c_name this)
      in (c \<in> fst ` set (c_tags this) \<or> fin, fin, this\<lparr>c_tags := tgs\<rparr>)) \<and>
   (c \<notin> fst ` set post \<longrightarrow>
      close_scan (pre @ (c, t) # post) c False = (True, pre)) \<and>
   (c_tags this = pre @ (c, t) # post \<and> c \<notin> fst ` set post \<longrightarrow>
      handle_close c this = (True, pre = [] \<and> c = c_name this, this\<lparr>c_tags := pre\<rparr>)) \<and>
   (c \<notin> fst ` set (c_tags this) \<longrightarrow>
      close_scan (c_tags this) c False = (False, []) \<and>
      handle_close c this = (c = c_name this, c = c_name this, this\<lparr>c_tags := []\<rparr>)) \<and>
   (ostack pctx = this # rest \<and> c \<notin> fst ` set (c_tags this) \<and> c \<noteq> c_name this \<longrightarrow>
      handle_close c this = (False, False, this\<lparr>c_tags := []\<rparr>) \<and>
      handle_element pctx (CHR ''/'' # c) attrs tx =
        Inl (CloseMismatchError, pctx\<lparr>ostack := this\<lparr>c_tags := []\<rparr> # rest\<rparr>)) \<and>
   (ostack pctx = this # rest \<and> c_tags this = pre @ (c, t) # post \<and>
    c \<notin> fst ` set post \<and> (pre \<noteq> [] \<or> c \<noteq> c_name this) \<longrightarrow>
      handle_element pctx (CHR ''/'' # c) attrs tx =
        Inr (pctx\<lparr>ostack := this\<lparr>c_tags := pre\<rparr> # rest\<rparr>)) \<and>
   (ostack pctx = this # rest \<longrightarrow>
      (\<exists>st. handle_element pctx (CHR ''/'' # c) attrs tx = Inl (CloseMismatchError, st)) =
      (c \<notin> fst ` set (c_tags this) \<and> c \<noteq> c_name this)) \<and>
   (pos < length str \<and> skip_ws str pos < length str \<and>
    read_element str (skip_ws str pos) =
      Some (CHR ''/'' # c, el_attrs, el_text, simple_tag, pos_next) \<and>
    c \<noteq> ''OFX'' \<and> ostack pctx = this # rest \<and>
    c \<notin> fst ` set (c_tags this) \<and> c \<noteq> c_name this \<longrightarrow>
      iterate_elements str pos handle_element pctx =
        Inl (CloseMismatchError, pctx\<lparr>ostack := this\<lparr>c_tags := []\<rparr> # rest\<rparr>)) \<and>
   iterate_elements ''<A><B><X>hi</X></A>'' 0 (\<lambda>st n a tx. Inr (st @ [(n, tx)])) [] =
     Inr ([(''A'', []), (''B'', []), (''X'', ''hi''), (''/X'', []), (''/A'', [])], 19) \<and>
   iterate_elements ''<A><B><X>hi</X>'' 0 handle_element (initial_ctx example_schema) =
     Inr (example_ctx [], 15) \<and>
   skip_ws ''<A><B><X>hi</X></A>'' 15 = 15 \<and>
   read_element ''<A><B><X>hi</X></A>'' 15 = Some (''/A'', [], [], False, 19) \<and>
   ostack (example_ctx []) =
     [\<lparr>c_name = ''B'', c_cont = Ofx_cont object [] [(''X'', string)], c_val = 2,
         c_tags = []\<rparr>,
      \<lparr>c_name = ''A'',
         c_cont = Ofx_cont object [(''B'', Ofx_cont object [] [(''X'', string)])] [],
         c_val = 1, c_tags = []\<rparr>,
      \<lparr>c_name = ''OFX'', c_cont = example_schema, c_val = 0, c_tags = []\<rparr>] \<and>
   handle_close ''A''
     \<lparr>c_name = ''B'', c_cont = Ofx_cont object [] [(''X'', string)], c_val = 2,
        c_tags = []\<rparr> =
     (False, False,
      \<lparr>c_name = ''B'', c_cont = Ofx_cont object [] [(''X'', string)], c_val = 2,
         c_tags = []\<rparr>) \<and>
   handle_element (example_ctx []) ''/A'' [] [] = Inl (CloseMismatchError, example_ctx []) \<and>
   iterate_elements ''<A><B><X>hi</X></A>'' 15 handle_element (example_ctx []) =
     Inl (CloseMismatchError, example_ctx []) \<and>
   iterate_elements ''<A><B><X>hi</X></A>'' 0 handle_element (initial_ctx example_schema) =
     Inl (CloseMismatchError, example_ctx []) \<and>
   iterate_elements ''<A><B><X>hi</X></A>'' 0 handle_element (initial_ctx example_schema) =
   Inl (CloseMismatchError,
     \<lparr>doc = 0,
      ostack =
        [\<lparr>c_name = ''B'', c_cont = Ofx_cont object [] [(''X'', string)], c_val = 2,
            c_tags = []\<rparr>,
         \<lparr>c_name = ''A'',
            c_cont = Ofx_cont object [(''B'', Ofx_cont object [] [(''X'', string)])] [],
            c_val = 1, c_tags = []\<rparr>,
         \<lparr>c_name = ''OFX'', c_cont = example_schema, c_val = 0, c_tags = []\<rparr>],
      heap = [JObject [], JObject [], JObject [(''x'', JString ''hi'')]]\<rparr>) \<and>
   handle_element (example_ctx [(''X'', ''hi'')]) ''/X'' [] [] = Inr (example_ctx []) \<and>
   handle_close ''A''
     \<lparr>c_name = ''B'', c_cont = Ofx_cont object [] [(''X'', string)], c_val = 2,
        c_tags = [(''X'', ''hi'')]\<rparr> =
     (False, False,
      \<lparr>c_name = ''B'', c_cont = Ofx_cont object [] [(''X'', string)], c_val = 2,
         c_tags = []\<rparr>) \<and>
   handle_element (example_ctx [(''X'', ''hi'')]) ''/A'' [] [] =
     Inl (CloseMismatchError, example_ctx []) \<and>
   iterate_elements ''<A><B><X>hi</A>'' 0 (\<lambda>st n a tx. Inr (st @ [(n, tx)])) [] =
     Inr ([(''A'', []), (''B'', []), (''X'', ''hi''), (''/A'', [])], 15) \<and>
   iterate_elements ''<A><B><X>hi</A>'' 0 handle_element (initial_ctx example_schema) =
     Inl (CloseMismatchError, example_ctx []) \<and>
   handle_element (example_ctx []) ''/B'' [] [] =
     Inr \<lparr>doc = 0,
      ostack =
        [\<lparr>c_name = ''A'',
            c_cont = Ofx_cont object [(''B'', Ofx_cont object [] [(''X'', string)])] [],
            c_val = 1, c_tags = []\<rparr>,
         \<lparr>c_name = ''OFX'', c_cont = example_schema, c_val = 0, c_tags = []\<rparr>],
      heap = [JObject [], JObject [(''b'', JObject [(''x'', JString ''hi'')])], JNull]\<rparr> \<and>
   iterate_elements ''<A><B><X>hi</X></B></A>'' 0 handle_element
       (initial_ctx example_schema) =
     Inr (\<lparr>doc = 0,
            ostack = [\<lparr>c_name = ''OFX'', c_cont = example_schema, c_val = 0, c_tags = []\<rparr>],
            heap = [JObject [(''a'', JObject [(''b'', JObject [(''x'', JString ''hi'')])])],
                    JNull, JNull]\<rparr>, 23)"
proof (intro conjI)
  show "handle_close c this =
     (let tgs = rev (tl (dropWhile (\<lambda>p. fst p \<noteq> c) (rev (c_tags this))));
          fin = (tgs = [] \<and> c = c_name this)
      in (c \<in> fst ` set (c_tags this) \<or> fin, fin, this\<lparr>c_tags := tgs\<rparr>))"
    by (rule handle_close_eq)
  show "(c \<notin> fst ` set post \<longrightarrow>
      close_scan (pre @ (c, t) # post) c False = (True, pre))"
    by (simp add: close_scan_found)
  show "(c_tags this = pre @ (c, t) # post \<and> c \<notin> fst ` set post \<longrightarrow>
      handle_close c this = (True, pre = [] \<and> c = c_name this, this\<lparr>c_tags := pre\<rparr>))"
    using handle_close_found [of this pre c t post] by blast
  show "(c \<notin> fst ` set (c_tags this) \<longrightarrow>
      close_scan (c_tags this) c False = (False, []) \<and>
      handle_close c this = (c = c_name this, c = c_name this, this\<lparr>c_tags := []\<rparr>))"
    using handle_close_not_found [of c this] close_scan_not_found [of c "c_tags this"] by blast
  show "(ostack pctx = this # rest \<and> c \<notin> fst ` set (c_tags this) \<and> c \<noteq> c_name this \<longrightarrow>
      handle_close c this = (False, False, this\<lparr>c_tags := []\<rparr>) \<and>
      handle_element pctx (CHR ''/'' # c) attrs tx =
        Inl (CloseMismatchError, pctx\<lparr>ostack := this\<lparr>c_tags := []\<rparr> # rest\<rparr>))"
    using close_event_mismatch [of pctx this rest c attrs tx] handle_close_not_found [of c this]
    by simp
  show "(ostack pctx = this # rest \<and> c_tags this = pre @ (c, t) # post \<and>
    c \<notin> fst ` set post \<and> (pre \<noteq> [] \<or> c \<noteq> c_name this) \<longrightarrow>
      handle_element pctx (CHR ''/'' # c) attrs tx =
        Inr (pctx\<lparr>ostack := this\<lparr>c_tags := pre\<rparr> # rest\<rparr>))"
    using close_event_absorbed [of pctx this rest pre c t post attrs tx] by blast
  show "(ostack pctx = this # rest \<longrightarrow>
      (\<exists>st. handle_element pctx (CHR ''/'' # c) attrs tx = Inl (CloseMismatchError, st)) =
      (c \<notin> fst ` set (c_tags this) \<and> c \<noteq> c_name this))"
    using close_event_mismatch_iff [of pctx this rest c attrs tx] by blast
  show "(pos < length str \<and> skip_ws str pos < length str \<and>
    read_element str (skip_ws str pos) =
      Some (CHR ''/'' # c, el_attrs, el_text, simple_tag, pos_next) \<and>
    c \<noteq> ''OFX'' \<and> ostack pctx = this # rest \<and>
    c \<notin> fst ` set (c_tags this) \<and> c \<noteq> c_name this \<longrightarrow>
      iterate_elements str pos handle_element pctx =
        Inl (CloseMismatchError, pctx\<lparr>ostack := this\<lparr>c_tags := []\<rparr> # rest\<rparr>))"
    using close_mismatch_ends_scan [of pos str c el_attrs el_text simple_tag pos_next pctx this rest]
    by blast
  show "iterate_elements ''<A><B><X>hi</X></A>'' 0 (\<lambda>st n a tx. Inr (st @ [(n, tx)])) [] =
     Inr ([(''A'', []), (''B'', []), (''X'', ''hi''), (''/X'', []), (''/A'', [])], 19)"
    by (simp add: tokenizer_eval)
  show "iterate_elements ''<A><B><X>hi</X>'' 0 handle_element (initial_ctx example_schema) =
     Inr (example_ctx [], 15)"
    by (simp add: tokenizer_eval builder_eval example_schema_def example_ctx_def)
  show "skip_ws ''<A><B><X>hi</X></A>'' 15 = 15"
    by (simp add: tokenizer_eval)
  show "read_element ''<A><B><X>hi</X></A>'' 15 = Some (''/A'', [], [], False, 19)"
    by (simp add: tokenizer_eval)
  show "ostack (example_ctx []) =
     [\<lparr>c_name = ''B'', c_cont = Ofx_cont object [] [(''X'', string)], c_val = 2,
         c_tags = []\<rparr>,
      \<lparr>c_name = ''A'',
         c_cont = Ofx_cont object [(''B'', Ofx_cont object [] [(''X'', string)])] [],
         c_val = 1, c_tags = []\<rparr>,
      \<lparr>c_name = ''OFX'', c_cont = example_schema, c_val = 0, c_tags = []\<rparr>]"
    by (simp add: example_ctx_def)
  show "handle_close ''A''
     \<lparr>c_name = ''B'', c_cont = Ofx_cont object [] [(''X'', string)], c_val = 2,
        c_tags = []\<rparr> =
     (False, False,
      \<lparr>c_name = ''B'', c_cont = Ofx_cont object [] [(''X'', string)], c_val = 2,
         c_tags = []\<rparr>)"
    by (simp add: builder_eval)
  show "handle_element (example_ctx []) ''/A'' [] [] = Inl (CloseMismatchError, example_ctx [])"
    by (simp add: builder_eval example_ctx_def)
  show "iterate_elements ''<A><B><X>hi</X></A>'' 15 handle_element (example_ctx []) =
     Inl (CloseMismatchError, example_ctx [])"
    by (simp add: tokenizer_eval builder_eval example_ctx_def)
  show "iterate_elements ''<A><B><X>hi</X></A>'' 0 handle_element (initial_ctx example_schema) =
     Inl (CloseMismatchError, example_ctx [])"
    by (simp add: tokenizer_eval builder_eval example_schema_def example_ctx_def)
  show "iterate_elements ''<A><B><X>hi</X></A>'' 0 handle_element (initial_ctx example_schema) =
   Inl (CloseMismatchError,
     \<lparr>doc = 0,
      ostack =
        [\<lparr>c_name = ''B'', c_cont = Ofx_cont object [] [(''X'', string)], c_val = 2,
            c_tags = []\<rparr>,
         \<lparr>c_name = ''A'',
            c_cont = Ofx_cont object [(''B'', Ofx_cont object [] [(''X'', string)])] [],
            c_val = 1, c_tags = []\<rparr>,
         \<lparr>c_name = ''OFX'', c_cont = example_schema, c_val = 0, c_tags = []\<rparr>],
      heap = [JObject [], JObject [], JObject [(''x'', JString ''hi'')]]\<rparr>)"
    by (simp add: tokenizer_eval builder_eval example_schema_def)
  show "handle_element (example_ctx [(''X'', ''hi'')]) ''/X'' [] [] = Inr (example_ctx [])"
    by (simp add: builder_eval example_ctx_def)
  show "handle_close ''A''
     \<lparr>c_name = ''B'', c_cont = Ofx_cont object [] [(''X'', string)], c_val = 2,
        c_tags = [(''X'', ''hi'')]\<rparr> =
     (False, False,
      \<lparr>c_name = ''B'', c_cont = Ofx_cont object [] [(''X'', string)], c_val = 2,
         c_tags = []\<rparr>)"
    by (simp add: builder_eval)
  show "handle_element (example_ctx [(''X'', ''hi'')]) ''/A'' [] [] =
     Inl (CloseMismatchError, example_ctx [])"
    by (simp add: builder_eval example_ctx_def)
  show "iterate_elements ''<A><B><X>hi</A>'' 0 (\<lambda>st n a tx. Inr (st @ [(n, tx)])) [] =
     Inr ([(''A'', []), (''B'', []), (''X'', ''hi''), (''/A'', [])], 15)"
    by (simp add: tokenizer_eval)
  show "iterate_elements ''<A><B><X>hi</A>'' 0 handle_element (initial_ctx example_schema) =
     Inl (CloseMismatchError, example_ctx [])"
    by (simp add: tokenizer_eval builder_eval example_schema_def example_ctx_def)
  show "handle_element (example_ctx []) ''/B'' [] [] =
     Inr \<lparr>doc = 0,
      ostack =
        [\<lparr>c_name = ''A'',
            c_cont = Ofx_cont object [(''B'', Ofx_cont object [] [(''X'', string)])] [],
            c_val = 1, c_tags = []\<rparr>,
         \<lparr>c_name = ''OFX'', c_cont = example_schema, c_val = 0, c_tags = []\<rparr>],
      heap = [JObject [], JObject [(''b'', JObject [(''x'', JString ''hi'')])], JNull]\<rparr>"
    by (simp add: builder_eval example_ctx_def)
  show "iterate_elements ''<A><B><X>hi</X></B></A>'' 0 handle_element
       (initial_ctx example_schema) =
     Inr (\<lparr>doc = 0,
            ostack = [\<lparr>c_name = ''OFX'', c_cont = example_schema, c_val = 0, c_tags = []\<rparr>],
            heap = [JObject [(''a'', JObject [(''b'', JObject [(''x'', JString ''hi'')])])],
                    JNull, JNull]\<rparr>, 23)"
    by (simp add: tokenizer_eval builder_eval example_schema_def)
qed

theorem close_mismatch_is_failure_witness:
  "handle_close ''A''
     \<lparr>c_name = ''B'', c_cont = Ofx_cont object [] [(''X'', string)], c_val = 2,
        c_tags = [(''Y'', ''1''), (''X'', ''hi'')]\<rparr> =
     (False, False,
      \<lparr>c_name = ''B'', c_cont = Ofx_cont object [] [(''X'', string)], c_val = 2,
         c_tags = []\<rparr>) \<and>
   handle_element (example_ctx [(''Y'', ''1''), (''X'', ''hi'')]) ''/A'' [] [] =
     Inl (CloseMismatchError, example_ctx []) \<and>
   iterate_elements ''<A><B><X>hi</A>'' 11 handle_element (example_ctx [(''X'', ''hi'')]) =
     Inl (CloseMismatchError, example_ctx []) \<and>
   handle_close ''X''
     \<lparr>c_name = ''B'', c_cont = Ofx_cont object [] [(''X'', string)], c_val = 2,
        c_tags = [(''Y'', ''1''), (''X'', ''hi''), (''Z'', ''2'')]\<rparr> =
     (True, False,
      \<lparr>c_name = ''B'', c_cont = Ofx_cont object [] [(''X'', string)], c_val = 2,
         c_tags = [(''Y'', ''1'')]\<rparr>) \<and>
   handle_element (example_ctx [(''Y'', ''1''), (''X'', ''hi''), (''Z'', ''2'')]) ''/X'' [] [] =
     Inr (example_ctx [(''Y'', ''1'')]) \<and>
   close_scan [(''Y'', ''1''), (''X'', ''hi''), (''Z'', ''2'')] ''X'' False =
     (True, [(''Y'', ''1'')]) \<and>
   close_scan [(''Y'', ''1''), (''X'', ''hi'')] ''A'' False = (False, []) \<and>
   (\<exists>st. handle_element (example_ctx []) ''/A'' [] [] = Inl (CloseMismatchError, st))"
proof -
  let ?B = "\<lambda>tgs. \<lparr>c_name = ''B'', c_cont = Ofx_cont object [] [(''X'', string)],
                     c_val = 2, c_tags = tgs\<rparr>"
  let ?rest = "[\<lparr>c_name = ''A'',
                   c_cont = Ofx_cont object [(''B'', Ofx_cont object [] [(''X'', string)])] [],
                   c_val = 1, c_tags = []\<rparr>,
                \<lparr>c_name = ''OFX'', c_cont = example_schema, c_val = 0, c_tags = []\<rparr>]"
  have sk: "skip_ws ''<A><B><X>hi</A>'' 11 = 11"
    by (simp add: skip_ws.simps isspace_def)
  have re: "read_element ''<A><B><X>hi</A>'' 11 = Some (''/A'', [], [], False, 15)"
    by (simp add: tokenizer_eval)
  have 1: "handle_close ''A'' (?B [(''Y'', ''1''), (''X'', ''hi'')]) = (False, False, ?B []) \<and>
      handle_element (example_ctx [(''Y'', ''1''), (''X'', ''hi'')]) ''/A'' [] [] =
        Inl (CloseMismatchError, example_ctx [])"
    using close_mismatch_is_failure [THEN conjunct2, THEN conjunct2, THEN conjunct2,
        THEN conjunct2, THEN conjunct1, rule_format,
        where pctx = "example_ctx [(''Y'', ''1''), (''X'', ''hi'')]"
        and this = "?B [(''Y'', ''1''), (''X'', ''hi'')]" and rest = ?rest and c = "''A''"
        and attrs = "[]" and tx = "[]"]
    by (simp add: example_ctx_def)
  have 2: "iterate_elements ''<A><B><X>hi</A>'' 11 handle_element (example_ctx [(''X'', ''hi'')]) =
      Inl (CloseMismatchError, example_ctx [])"
    using close_mismatch_is_failure [THEN conjunct2, THEN conjunct2, THEN conjunct2,
        THEN conjunct2, THEN conjunct2, THEN conjunct2, THEN conjunct2, THEN conjunct1,
        rule_format,
        where str = "''<A><B><X>hi</A>''" and pos = 11 and c = "''A''" and el_attrs = "[]"
        and el_text = "[]" and simple_tag = False and pos_next = 15
        and pctx = "example_ctx [(''X'', ''hi'')]" and this = "?B [(''X'', ''hi'')]"
        and rest = ?rest]
    by (simp add: example_ctx_def sk re)
  have 3: "handle_close ''X'' (?B [(''Y'', ''1''), (''X'', ''hi''), (''Z'', ''2'')]) =
      (True, False, ?B [(''Y'', ''1'')])"
    using close_mismatch_is_failure [THEN conjunct2, THEN conjunct2, THEN conjunct1,
        rule_format,
        where this = "?B [(''Y'', ''1''), (''X'', ''hi''), (''Z'', ''2'')]"
        and pre = "[(''Y'', ''1'')]" and c = "''X''" and t = "''hi''"
        and post = "[(''Z'', ''2'')]"]
    by simp
  have 4: "handle_element (example_ctx [(''Y'', ''1''), (''X'', ''hi''), (''Z'', ''2'')])
        ''/X'' [] [] = Inr (example_ctx [(''Y'', ''1'')])"
    using close_mismatch_is_failure [THEN conjunct2, THEN conjunct2, THEN conjunct2,
        THEN conjunct2, THEN conjunct2, THEN conjunct1, rule_format,
        where pctx = "example_ctx [(''Y'', ''1''), (''X'', ''hi''), (''Z'', ''2'')]"
        and this = "?B [(''Y'', ''1''), (''X'', ''hi''), (''Z'', ''2'')]" and rest = ?rest
        and pre = "[(''Y'', ''1'')]" and c = "''X''" and t = "''hi''"
        and post = "[(''Z'', ''2'')]" and attrs = "[]" and tx = "[]"]
    by (simp add: example_ctx_def)
  have 5: "close_scan [(''Y'', ''1''), (''X'', ''hi''), (''Z'', ''2'')] ''X'' False =
      (True, [(''Y'', ''1'')])"
    using close_mismatch_is_failure [THEN conjunct2, THEN conjunct1, rule_format,
        where c = "''X''" and post = "[(''Z'', ''2'')]" and pre = "[(''Y'', ''1'')]"
        and t = "''hi''"]
    by simp
  have 6: "close_scan [(''Y'', ''1''), (''X'', ''hi'')] ''A'' False = (False, [])"
    using close_mismatch_is_failure [THEN conjunct2, THEN conjunct2, THEN conjunct2,
        THEN conjunct1, rule_format,
        where c = "''A''" and this = "?B [(''Y'', ''1''), (''X'', ''hi'')]"]
    by simp
  have 7: "\<exists>st. handle_element (example_ctx []) ''/A'' [] [] = Inl (CloseMismatchError, st)"
    using close_mismatch_is_failure [THEN conjunct2, THEN conjunct2, THEN conjunct2,
        THEN conjunct2, THEN conjunct2, THEN conjunct2, THEN conjunct1, rule_format,
        where pctx = "example_ctx []" and this = "?B []" and rest = ?rest and c = "''A''"
        and attrs = "[]" and tx = "[]"]
    by (simp add: example_ctx_def)
  from 1 2 3 4 5 6 7 show ?thesis by simp
qed

text \<open>
  Claim C4. When the element read is the close of \<^verbatim>\<open>OFX\<close>, \<^verbatim>\<open>iterate_elements\<close>
  returns \<^verbatim>\<open>true\<close> at once with the state as it is, whatever the handler and however
  many frames are open: the event does not reach the handler. After the loop,
  \<^verbatim>\<open>process_ofx\<close> closes the single frame left with its own name and succeeds when
  that empties its pending tags; with more than one frame left it returns \<^verbatim>\<open>false\<close>
  and \<^verbatim>\<open>main\<close> writes nothing.
\<close>

theorem root_close_stops_scan:
  "(pos < length str \<and> skip_ws str pos < length str \<and>
    read_element str (skip_ws str pos) = Some (''/OFX'', el_attrs, el_text, simple_tag, pos2) \<longrightarrow>
      iterate_elements str pos handler st = Inr (st, pos2)) \<and>
   (iterate_elements inp p handle_element (initial_ctx root) = Inr (pctx, p') \<longrightarrow>
      process_ofx root inp p = Inr (finish_ofx pctx)) \<and>
   (ostack pctx = [os_top] \<longrightarrow>
      finish_ofx pctx =
        (fst (snd (handle_close (c_name os_top) os_top)), pctx\<lparr>ostack := []\<rparr>)) \<and>
   (1 < length (ostack pctx) \<longrightarrow> finish_ofx pctx = (False, pctx)) \<and>
   (ostack pctx = [] \<longrightarrow> finish_ofx pctx = (True, pctx)) \<and>
   main example_schema ''<OFX><A><B><X>1</B></A></OFX>'' =
     Emitted (JObject [(''a'', JObject [(''b'', JObject [(''x'', JString ''1'')])])]) \<and>
   main example_schema ''<OFX><A><B></OFX>'' = NoOutput"
proof (intro conjI impI)
  assume "pos < length str \<and> skip_ws str pos < length str \<and>
    read_element str (skip_ws str pos) = Some (''/OFX'', el_attrs, el_text, simple_tag, pos2)"
  then show "iterate_elements str pos handler st = Inr (st, pos2)"
    by (subst iterate_elements.simps) (simp add: Let_def)
next
  assume "iterate_elements inp p handle_element (initial_ctx root) = Inr (pctx, p')"
  then show "process_ofx root inp p = Inr (finish_ofx pctx)"
    by (simp add: process_ofx_def)
next
  assume "ostack pctx = [os_top]"
  then show "finish_ofx pctx =
        (fst (snd (handle_close (c_name os_top) os_top)), pctx\<lparr>ostack := []\<rparr>)"
    by (simp add: finish_ofx_def Let_def case_prod_beta)
next
  assume "1 < length (ostack pctx)"
  then show "finish_ofx pctx = (False, pctx)"
    by (auto simp: finish_ofx_def)
next
  assume "ostack pctx = []"
  then show "finish_ofx pctx = (True, pctx)"
    by (simp add: finish_ofx_def)
next
  show "main example_schema ''<OFX><A><B><X>1</B></A></OFX>'' =
     Emitted (JObject [(''a'', JObject [(''b'', JObject [(''x'', JString ''1'')])])])"
    by (simp add: main_def tokenizer_eval builder_eval example_schema_def)
  show "main example_schema ''<OFX><A><B></OFX>'' = NoOutput"
    by (simp add: main_def tokenizer_eval builder_eval example_schema_def)
qed

theorem root_close_stops_scan_witness:
  "iterate_elements ''</OFX>'' 0 handle_element (initial_ctx example_schema) =
     Inr (initial_ctx example_schema, 6) \<and>
   process_ofx example_schema ''</OFX>'' 0 = Inr (True, (initial_ctx example_schema)\<lparr>ostack := []\<rparr>) \<and>
   finish_ofx \<lparr>doc = 0,
        ostack = [\<lparr>c_name = ''A'', c_cont = example_schema, c_val = 0, c_tags = []\<rparr>,
                  \<lparr>c_name = ''OFX'', c_cont = example_schema, c_val = 0, c_tags = []\<rparr>],
        heap = [JObject []]\<rparr> =
     (False, \<lparr>doc = 0,
        ostack = [\<lparr>c_name = ''A'', c_cont = example_schema, c_val = 0, c_tags = []\<rparr>,
                  \<lparr>c_name = ''OFX'', c_cont = example_schema, c_val = 0, c_tags = []\<rparr>],
        heap = [JObject []]\<rparr>)"
proof -
  have re: "read_element ''</OFX>'' (skip_ws ''</OFX>'' 0) = Some (''/OFX'', [], [], False, 6)"
    by (simp add: read_element_def read_name.simps skip_ws.simps isspace_def name_end_def
        Let_def)
  have sk: "skip_ws ''</OFX>'' 0 = 0"
    by (simp add: skip_ws.simps isspace_def)
  have 1: "iterate_elements ''</OFX>'' 0 handle_element (initial_ctx example_schema) =
     Inr (initial_ctx example_schema, 6)"
    using root_close_stops_scan [of 0 "''</OFX>''" "[]" "[]" False 6 handle_element
        "initial_ctx example_schema"] re sk
    by simp
  have ic: "ostack (initial_ctx example_schema) =
      [\<lparr>c_name = ''OFX'', c_cont = example_schema, c_val = 0, c_tags = []\<rparr>]"
    by (simp add: initial_ctx_def new_container_def push_container_def example_schema_def)
  have hc: "handle_close ''OFX''
      \<lparr>c_name = ''OFX'', c_cont = example_schema, c_val = 0, c_tags = []\<rparr> =
      (True, True, \<lparr>c_name = ''OFX'', c_cont = example_schema, c_val = 0, c_tags = []\<rparr>)"
    by (simp add: handle_close_def close_scan.simps)
  note c2 = root_close_stops_scan [THEN conjunct2, THEN conjunct1, rule_format, OF 1]
  note c3 = root_close_stops_scan [THEN conjunct2, THEN conjunct2, THEN conjunct1,
      rule_format, OF ic]
  have 2: "process_ofx example_schema ''</OFX>'' 0 =
      Inr (True, (initial_ctx example_schema)\<lparr>ostack := []\<rparr>)"
    by (simp add: c2 c3 hc)
  have 3: "finish_ofx \<lparr>doc = 0,
        ostack = [\<lparr>c_name = ''A'', c_cont = example_schema, c_val = 0, c_tags = []\<rparr>,
                  \<lparr>c_name = ''OFX'', c_cont = example_schema, c_val = 0, c_tags = []\<rparr>],
        heap = [JObject []]\<rparr> =
     (False, \<lparr>doc = 0,
        ostack = [\<lparr>c_name = ''A'', c_cont = example_schema, c_val = 0, c_tags = []\<rparr>,
                  \<lparr>c_name = ''OFX'', c_cont = example_schema, c_val = 0, c_tags = []\<rparr>],
        heap = [JObject []]\<rparr>)"
    by (rule root_close_stops_scan [THEN conjunct2, THEN conjunct2, THEN conjunct2,
          THEN conjunct1, rule_format]) simp
  from 1 2 3 show ?thesis by (intro conjI)
qed


text \<open>
  Claim C1. The claim does not hold of the code: when \<^verbatim>\<open>iterate_elements\<close> returns
  \<^verbatim>\<open>false\<close>, \<^verbatim>\<open>process_ofx\<close> logs \<^verbatim>\<open>Processing failed.\<close> and returns \<^verbatim>\<open>true\<close>, and
  \<^verbatim>\<open>main\<close> writes the document built so far. Here a close mismatch and a tag cut off by
  the end of the input, under any root that serializes as \<^verbatim>\<open>nothing\<close>, and a close
  mismatch behind a closed container on the schema of the example.
\<close>

theorem failed_scan_still_emits:
  "main (Ofx_cont nothing sb tg) ''<OFX></FOO>'' = Emitted (JObject []) \<and>
   main (Ofx_cont nothing sb tg) ''<OFX><A'' = Emitted (JObject []) \<and>
   main example_schema ''<OFX><A><B></B></A></WRONG>'' =
     Emitted (JObject [(''a'', JObject [(''b'', JObject [])])])"
  by (simp add: main_def tokenizer_eval builder_eval example_schema_def)


section \<open>Termination\<close>

lemma pd_loop_count: "fst (pd_loop w str pos slen b i v) \<le> max i (slen - pos)"
proof (induction w str pos slen b i v rule: pd_loop.induct)
  case (1 wrap str pos slen bounded i val)
  show ?case
  proof (cases "pos + i < slen")
    case False
    then show ?thesis by (subst pd_loop.simps) simp
  next
    case True
    let ?ch = "str ! (pos + i)"
    let ?v = "wrap (wrap (val * 10) + int (digit_val ?ch))"
    show ?thesis
    proof (cases "isdigit ?ch \<and> \<not> ?v < val")
      case False
      with True show ?thesis by (subst pd_loop.simps) (auto simp: Let_def)
    next
      case d: True
      with "1.IH" [OF True refl _ refl refl] have
        "fst (pd_loop wrap str pos slen bounded (Suc i) ?v) \<le> max (Suc i) (slen - pos)"
        by simp
      with True d show ?thesis by (subst pd_loop.simps) (auto simp: Let_def)
    qed
  qed
qed

lemma parse_digits_count: "fst (parse_digits w str pos len) \<le> length str - pos"
proof (cases len)
  case None
  with pd_loop_count [of w str pos "length str" False 0 0] show ?thesis
    by (simp add: parse_digits_def)
next
  case (Some n)
  with pd_loop_count [of w str pos "pos + n" True 0 0] show ?thesis
    by (auto simp: parse_digits_def)
qed

lemma pn_loop_ge: "pn_loop str pos isf r k = Some (pos', r', k') \<Longrightarrow> pos \<le> pos'"
proof (induction str pos isf r k rule: pn_loop.induct)
  case (1 str pos isf r k)
  show ?case
  proof (cases "pos < length str")
    case False
    with "1.prems" show ?thesis by (subst (asm) pn_loop.simps) simp
  next
    case lt: True
    show ?thesis
    proof (cases "str ! pos = CHR ''.''")
      case dot: True
      with lt "1.prems" have nisf: "\<not> isf"
        by (subst (asm) pn_loop.simps) (auto simp: Let_def split: if_splits)
      with lt dot "1.prems" have "pn_loop str (Suc pos) True r k = Some (pos', r', k')"
        by (subst (asm) pn_loop.simps) (simp add: Let_def)
      from "1.IH"(1) [OF lt refl dot nisf this] show ?thesis by simp
    next
      case ndot: False
      show ?thesis
      proof (cases "isdigit (str ! pos)")
        case False
        with lt ndot "1.prems" show ?thesis
          by (subst (asm) pn_loop.simps) (simp add: Let_def)
      next
        case dig: True
        let ?k = "if isf then Suc k else k"
        let ?r = "dbl_add (dbl_mul10 r) (digit_val (str ! pos))"
        from lt ndot dig "1.prems" have nl: "\<not> dbl_less ?r r"
          by (subst (asm) pn_loop.simps) (auto simp: Let_def split: if_splits)
        with lt ndot dig "1.prems" have "pn_loop str (Suc pos) isf ?r ?k = Some (pos', r', k')"
          by (subst (asm) pn_loop.simps) (simp add: Let_def)
        from "1.IH"(2) [OF lt refl ndot dig refl refl nl this] show ?thesis by simp
      qed
    qed
  qed
qed

lemma find_bracket_ge: "i \<le> find_bracket str i"
  by (induction str i rule: find_bracket.induct) (subst find_bracket.simps, auto)

lemma iterate_elements_ge:
  "iterate_elements str pos h st = Inr (st', pos') \<Longrightarrow> pos \<le> pos'"
proof (induction str pos h st rule: iterate_elements.induct)
  case (1 str pos handle_element st)
  show ?case
  proof (cases "pos < length str \<and> skip_ws str pos < length str")
    case False
    with "1.prems" skip_ws_ge [of pos str] show ?thesis
      by (subst (asm) iterate_elements.simps) (auto simp: Let_def split: if_splits)
  next
    case True
    then have lt: "pos < length str" and nl: "\<not> length str \<le> skip_ws str pos" by simp_all
    from True "1.prems" obtain el_name el_attrs el_text simple_tag pos2 where
      re: "read_element str (skip_ws str pos) = Some (el_name, el_attrs, el_text, simple_tag, pos2)"
      by (subst (asm) iterate_elements.simps) (auto simp: Let_def split: option.splits)
    from read_element_advance [OF re] skip_ws_ge [of pos str] have p2: "pos < pos2" by linarith
    show ?thesis
    proof (cases "el_name = ''/OFX''")
      case ofx: True
      with True re "1.prems" have "pos' = pos2"
        by (subst (asm) iterate_elements.simps) (simp add: Let_def)
      with p2 show ?thesis by simp
    next
      case nofx: False
      from True re nofx "1.prems" obtain st1 where
        h1: "handle_element st el_name el_attrs (try_xml_decode el_text) = Inr st1"
        by (subst (asm) iterate_elements.simps) (auto simp: Let_def split: sum.splits)
      show ?thesis
      proof (cases simple_tag)
        case False
        with True re nofx h1 "1.prems"
        have "iterate_elements str pos2 handle_element st1 = Inr (st', pos')"
          by (subst (asm) iterate_elements.simps) (simp add: Let_def)
        from "1.IH"(2) [OF lt refl nl re refl refl refl refl nofx h1 False this] p2
        show ?thesis by simp
      next
        case s: True
        with True re nofx h1 "1.prems" obtain st2 where
          h2: "handle_element st1 (CHR ''/'' # el_name) el_attrs [] = Inr st2"
          by (subst (asm) iterate_elements.simps) (auto simp: Let_def split: sum.splits)
        with True re nofx h1 s "1.prems"
        have "iterate_elements str pos2 handle_element st2 = Inr (st', pos')"
          by (subst (asm) iterate_elements.simps) (simp add: Let_def)
        from "1.IH"(1) [OF lt refl nl re refl refl refl refl nofx h1 s h2 this] p2
        show ?thesis by simp
      qed
    qed
  qed
qed


lemma iterate_bounded_enough:
  "length str - pos < n \<Longrightarrow>
   iterate_bounded n str pos h st = Some (iterate_elements str pos h st)"
proof (induction n arbitrary: pos st)
  case 0
  then show ?case by simp
next
  case (Suc n)
  show ?case
  proof (cases "pos < length str \<and> skip_ws str pos < length str")
    case False
    then show ?thesis
      by (subst iterate_elements.simps) (auto simp: Let_def)
  next
    case True
    show ?thesis
    proof (cases "read_element str (skip_ws str pos)")
      case None
      with True show ?thesis
        by (subst iterate_elements.simps) (simp add: Let_def)
    next
      case (Some x)
      then obtain el_name el_attrs el_text simple_tag pos2 where
        re: "read_element str (skip_ws str pos) = Some (el_name, el_attrs, el_text, simple_tag, pos2)"
        by (cases x) auto
      from read_element_advance [OF re] skip_ws_ge [of pos str] have "pos < pos2" by linarith
      with Suc.prems True have "length str - pos2 < n" by linarith
      then have ih: "\<And>st'. iterate_bounded n str pos2 h st' = Some (iterate_elements str pos2 h st')"
        by (rule Suc.IH)
      from True re show ?thesis
        by (subst iterate_elements.simps) (simp add: Let_def ih split: sum.splits)
    qed
  qed
qed

text \<open>
  Claim C9. Every loop of the decoders, of the tokenizer and of the close resolution is
  a recursive function here, whose termination is proved where it is defined, by the
  distance of its cursor to the end of the buffer or by the length of the pending-tag
  list. The cursors only move forward, a name, an attribute and an element move the
  cursor strictly forward when they are read, the close scan only shortens the list,
  and the element loop ends within one pass for each character left in the buffer.
\<close>

theorem scanning_loops_advance:
  "pos \<le> skip_ws str pos \<and>
   fst (parse_digits w str pos len) \<le> length str - pos \<and>
   i \<le> find_bracket str i \<and>
   0 < snd (xd_step str pos) \<and>
   (pn_loop str pos isf r k = Some (p1, r', k') \<longrightarrow> pos \<le> p1) \<and>
   (read_name str pos [] = (True, p2, nm) \<longrightarrow> pos < p2) \<and>
   (read_attrval str pos tx quoted = (ok, p3, v) \<longrightarrow> pos \<le> p3) \<and>
   (read_text str pos = Some (p4, tx') \<longrightarrow> pos \<le> p4) \<and>
   (read_attr str pos = Some (p5, at_name, at_val) \<longrightarrow> pos < p5) \<and>
   (attr_loop str pos el_attrs = Some (p6, el_attrs') \<longrightarrow> pos \<le> p6) \<and>
   (read_element str pos = Some (el_name, el_attrs'', el_text, simple_tag, p7) \<longrightarrow> pos < p7) \<and>
   (iterate_elements str pos h st = Inr (st', p8) \<longrightarrow> pos \<le> p8) \<and>
   (length str - pos < n \<longrightarrow>
      iterate_bounded n str pos h st = Some (iterate_elements str pos h st)) \<and>
   length (snd (close_scan tgs c found)) \<le> length tgs \<and>
   length (c_tags (snd (snd (handle_close c this)))) \<le> length (c_tags this)"
proof (intro conjI impI)
  show "pos \<le> skip_ws str pos" by (rule skip_ws_ge)
  show "fst (parse_digits w str pos len) \<le> length str - pos" by (rule parse_digits_count)
  show "i \<le> find_bracket str i" by (rule find_bracket_ge)
  show "0 < snd (xd_step str pos)" by (rule xd_step_advance)
  show "length (snd (close_scan tgs c found)) \<le> length tgs" by (rule close_scan_length)
  show "length (c_tags (snd (snd (handle_close c this)))) \<le> length (c_tags this)"
    using close_scan_length [of "c_tags this" c False]
    by (auto simp: handle_close_def Let_def case_prod_beta)
next
  assume "pn_loop str pos isf r k = Some (p1, r', k')"
  then show "pos \<le> p1" by (rule pn_loop_ge)
next
  assume "read_name str pos [] = (True, p2, nm)"
  then show "pos < p2" by (rule read_name_advance)
next
  assume "read_attrval str pos tx quoted = (ok, p3, v)"
  then show "pos \<le> p3" by (rule read_attrval_ge)
next
  assume "read_text str pos = Some (p4, tx')"
  then have "skip_ws str pos \<le> p4" by (auto simp: read_text_def dest: rt_loop_ge)
  with skip_ws_ge [of pos str] show "pos \<le> p4" by linarith
next
  assume "read_attr str pos = Some (p5, at_name, at_val)"
  then show "pos < p5" by (rule read_attr_advance)
next
  assume "attr_loop str pos el_attrs = Some (p6, el_attrs')"
  then show "pos \<le> p6" by (rule attr_loop_ge)
next
  assume "read_element str pos = Some (el_name, el_attrs'', el_text, simple_tag, p7)"
  then show "pos < p7" by (rule read_element_advance)
next
  assume "iterate_elements str pos h st = Inr (st', p8)"
  then show "pos \<le> p8" by (rule iterate_elements_ge)
next
  assume "length str - pos < n"
  then show "iterate_bounded n str pos h st = Some (iterate_elements str pos h st)"
    by (rule iterate_bounded_enough)
qed

theorem scanning_loops_advance_witness:
  "read_element ''<A>hi</A>'' 0 = Some (''A'', [], ''hi'', False, 5) \<and> (0::nat) < 5 \<and>
   iterate_bounded 10 ''<A>hi</A>'' 0 handle_element (initial_ctx example_schema) =
     Some (iterate_elements ''<A>hi</A>'' 0 handle_element (initial_ctx example_schema))"
proof -
  have re: "read_element ''<A>hi</A>'' 0 = Some (''A'', [], ''hi'', False, 5)"
    by (simp add: tokenizer_eval)
  have "(0::nat) < 5"
    by (rule scanning_loops_advance [THEN conjunct2, THEN conjunct2, THEN conjunct2,
          THEN conjunct2, THEN conjunct2, THEN conjunct2, THEN conjunct2, THEN conjunct2,
          THEN conjunct2, THEN conjunct2, THEN conjunct1, rule_format, OF re])
  moreover have
    "iterate_bounded 10 ''<A>hi</A>'' 0 handle_element (initial_ctx example_schema) =
     Some (iterate_elements ''<A>hi</A>'' 0 handle_element (initial_ctx example_schema))"
    by (rule scanning_loops_advance [THEN conjunct2, THEN conjunct2, THEN conjunct2,
          THEN conjunct2, THEN conjunct2, THEN conjunct2, THEN conjunct2, THEN conjunct2,
          THEN conjunct2, THEN conjunct2, THEN conjunct2, THEN conjunct2, THEN conjunct1,
          rule_format]) simp
  ultimately show ?thesis using re by simp
qed


end
